theory Spec2Isabelle
  imports Main "HOL-Library.Sublist" "HOL-Library.Log_Nat"
begin

section \<open>JavaScript numbers in the RSA lab\<close>

text \<open>
  The RSA lab of \<^verbatim>\<open>src/App.jsx\<close> computes on JavaScript numbers: IEEE-754 doubles. The
  values it meets are the doubles whose value is an integer, NaN and the two infinities:
  every operation it uses (\<^verbatim>\<open>+ - * %\<close>, \<^verbatim>\<open>Math.floor(a/b)\<close>, and \<^verbatim>\<open>n/i\<close> after \<^verbatim>\<open>n%i===0\<close>)
  leads from such values to such values. \<open>Fin k\<close> is the double of integer value \<open>k\<close>.
  The two zeros are one value \<open>Fin 0\<close>: the source compares with \<^verbatim>\<open>===\<close>, tests truthiness
  and never divides by a zero, so it cannot tell them apart. Numbers with a fractional
  part are outside the model. An integer \<open>k\<close> of magnitude up to \<open>2^53\<close> is a double; a
  larger one is a double only if it has at most 53 significant bits. The operations below
  return such values only, and what is proved for every \<open>k\<close> holds for those in particular.
\<close>

datatype jsnum = Fin int | NaN | PInf | NInf

text \<open>
  An arithmetic operation returns the double nearest to the exact result, the even one
  of two nearest. \<open>toDouble k\<close> is that double for an exact integer result \<open>k\<close>: \<open>k\<close> itself
  up to \<open>2^53\<close>, beyond that \<open>k\<close> rounded to 53 significant bits, and an infinity from
  \<open>2^1024 - 2^970\<close> on.
\<close>

definition round_half_even :: "int \<Rightarrow> int \<Rightarrow> int" where
  "round_half_even n d =
     (let q = n div d; r = n mod d
      in if 2 * r < d then q else if d < 2 * r then q + 1 else if even q then q else q + 1)"

definition toDouble :: "int \<Rightarrow> jsnum" where
  "toDouble k =
     (if \<bar>k\<bar> \<le> 2 ^ 53 then Fin k
      else (let u = 2 ^ nat (bitlen \<bar>k\<bar> - 53); m = round_half_even \<bar>k\<bar> u * u
            in if 2 ^ 1024 \<le> m then (if 0 < k then PInf else NInf) else Fin (sgn k * m)))"

fun num_neg :: "jsnum \<Rightarrow> jsnum" where
  "num_neg (Fin a) = Fin (- a)"
| "num_neg NaN = NaN"
| "num_neg PInf = NInf"
| "num_neg NInf = PInf"

fun num_sgn :: "jsnum \<Rightarrow> int" where
  "num_sgn (Fin a) = sgn a"
| "num_sgn NaN = 0"
| "num_sgn PInf = 1"
| "num_sgn NInf = - 1"

text \<open>\<^verbatim>\<open>a + b\<close>, \<^verbatim>\<open>a - b\<close> and \<^verbatim>\<open>a * b\<close>.\<close>

fun num_add :: "jsnum \<Rightarrow> jsnum \<Rightarrow> jsnum" where
  "num_add (Fin a) (Fin b) = toDouble (a + b)"
| "num_add NaN _ = NaN"
| "num_add _ NaN = NaN"
| "num_add PInf NInf = NaN"
| "num_add NInf PInf = NaN"
| "num_add PInf _ = PInf"
| "num_add _ PInf = PInf"
| "num_add NInf _ = NInf"
| "num_add _ NInf = NInf"

definition num_sub :: "jsnum \<Rightarrow> jsnum \<Rightarrow> jsnum" where
  "num_sub a b = num_add a (num_neg b)"

fun num_mul :: "jsnum \<Rightarrow> jsnum \<Rightarrow> jsnum" where
  "num_mul (Fin a) (Fin b) = toDouble (a * b)"
| "num_mul NaN _ = NaN"
| "num_mul _ NaN = NaN"
| "num_mul a b =
     (if num_sgn a * num_sgn b = 0 then NaN
      else if 0 < num_sgn a * num_sgn b then PInf else NInf)"

text \<open>
  \<^verbatim>\<open>a % b\<close> truncates towards zero: the result has the sign of the dividend. It is exact
  (never rounded), NaN for a zero divisor or an infinite dividend, and the dividend itself
  for an infinite divisor.
\<close>

definition js_rem :: "int \<Rightarrow> int \<Rightarrow> int" where
  "js_rem a b = sgn a * (\<bar>a\<bar> mod \<bar>b\<bar>)"

fun num_rem :: "jsnum \<Rightarrow> jsnum \<Rightarrow> jsnum" where
  "num_rem (Fin a) (Fin b) = (if b = 0 then NaN else Fin (js_rem a b))"
| "num_rem (Fin a) PInf = Fin a"
| "num_rem (Fin a) NInf = Fin a"
| "num_rem _ _ = NaN"

text \<open>
  \<^verbatim>\<open>Math.floor(a/b)\<close>. The quotient \<^verbatim>\<open>a/b\<close> of two finite numbers is the exact quotient
  rounded to a double, which need not be an integer; the floor is taken of the rounded
  value. For positive integers \<open>n\<close> and \<open>d\<close> the rounded quotient is
  \<open>quot_significand n d * 2 ^ (quot_exponent n d - 52)\<close>: the exponent \<open>e\<close> is the one with
  \<open>2^e \<le> n/d < 2^(e+1)\<close>, and the significand is \<open>n/d * 2^(52-e)\<close> rounded to an integer.
  The source calls \<^verbatim>\<open>Math.floor(a/b)\<close> only after \<^verbatim>\<open>b===0\<close> has failed; the value given here
  for a zero divisor is never used.
\<close>

definition quot_exponent :: "int \<Rightarrow> int \<Rightarrow> int" where
  "quot_exponent n d =
     (let e0 = bitlen n - bitlen d
      in if (if 0 \<le> e0 then d * 2 ^ nat e0 \<le> n else d \<le> n * 2 ^ nat (- e0)) then e0
         else e0 - 1)"

definition quot_significand :: "int \<Rightarrow> int \<Rightarrow> int" where
  "quot_significand n d =
     (let e = quot_exponent n d
      in if e \<le> 52 then round_half_even (n * 2 ^ nat (52 - e)) d
         else round_half_even n (d * 2 ^ nat (e - 52)))"

definition floor_quot_int :: "int \<Rightarrow> int \<Rightarrow> int" where
  "floor_quot_int a b =
     (if a = 0 then 0
      else (let e = quot_exponent \<bar>a\<bar> \<bar>b\<bar>; m = quot_significand \<bar>a\<bar> \<bar>b\<bar>;
                r = (if 0 < sgn a * sgn b then m else - m)
            in if 52 \<le> e then r * 2 ^ nat (e - 52) else r div 2 ^ nat (52 - e)))"

fun floor_quot :: "jsnum \<Rightarrow> jsnum \<Rightarrow> jsnum" where
  "floor_quot (Fin a) (Fin b) = (if b = 0 then NaN else Fin (floor_quot_int a b))"
| "floor_quot (Fin a) PInf = Fin 0"
| "floor_quot (Fin a) NInf = Fin 0"
| "floor_quot NaN _ = NaN"
| "floor_quot _ NaN = NaN"
| "floor_quot a (Fin b) =
     (if b = 0 then NaN else if 0 < num_sgn a * sgn b then PInf else NInf)"
| "floor_quot _ _ = NaN"

section \<open>The extended Euclidean algorithm and the modular inverse\<close>

text \<open>
  \<^verbatim>\<open>function egcd(a,b){ if(b===0) return {g:a,x:1,y:0};
    const {g,x:y1,y:x1}=egcd(b,a%b); return {g,x:x1,y:y1-Math.floor(a/b)*x1}; }\<close>

  The object \<^verbatim>\<open>{g,x,y}\<close> is the triple \<open>(g, x, y)\<close>. The destructuring binds \<open>y1\<close> to
  the \<open>x\<close> and \<open>x1\<close> to the \<open>y\<close> of the recursive result. The recursion need not end:
  once an argument is NaN, \<^verbatim>\<open>b===0\<close> fails for ever. \<open>egcd a b = None\<close> says that the
  recursion on \<open>a\<close> and \<open>b\<close> does not end; the engine then runs out of stack and throws.
\<close>

partial_function (option) egcd :: "jsnum \<Rightarrow> jsnum \<Rightarrow> (jsnum \<times> jsnum \<times> jsnum) option" where
  "egcd a b =
     (if b = Fin 0 then Some (a, Fin 1, Fin 0)
      else Option.bind (egcd b (num_rem a b))
             (\<lambda>(g, y1, x1). Some (g, x1, num_sub y1 (num_mul (floor_quot a b) x1))))"

declare egcd.simps [code]

text \<open>
  What \<^verbatim>\<open>compute\<close> can end with as an error: the \<^verbatim>\<open>Error\<close> that it throws itself, whose
  message says that one of p, q, n is still undetermined, and the engine's error for an
  exhausted call stack. Its \<^verbatim>\<open>catch (err)\<close> catches both and stores \<^verbatim>\<open>err.message\<close>.
\<close>

datatype error = MissingKeyMaterial | StackExhausted

text \<open>
  \<^verbatim>\<open>function modInv(a,m){ const {g,x}=egcd((a%m+m)%m,m); if(g!==1) return null;
    return (x%m+m)%m; }\<close>

  The result is \<open>Inl StackExhausted\<close> when the call of \<^verbatim>\<open>egcd\<close> throws, \<open>Inr None\<close> for
  \<^verbatim>\<open>null\<close> and \<open>Inr (Some d)\<close> for a number \<open>d\<close>.
\<close>

definition modInv :: "jsnum \<Rightarrow> jsnum \<Rightarrow> error + jsnum option" where
  "modInv a m =
     (case egcd (num_rem (num_add (num_rem a m) m) m) m of
        None \<Rightarrow> Inl StackExhausted
      | Some (g, x, y) \<Rightarrow>
          if g \<noteq> Fin 1 then Inr None
          else Inr (Some (num_rem (num_add (num_rem x m) m) m)))"

section \<open>Trial division\<close>

text \<open>
  \<^verbatim>\<open>function trialFactor(n){ for(let i=2;i*i<=n;i++){ if(n%i===0) return [i,n/i]; }
    return null; }\<close>

  On a finite \<open>n\<close> the loop computes with exact integers, and it is modelled on \<^typ>\<open>int\<close>
  as the recursion \<open>trialFactor_loop n i\<close> on the candidate \<open>i\<close>: a double from \<open>2^53\<close> on is
  even, so that the loop returns at \<open>i = 2\<close>; below \<open>2^53\<close> the candidates stay below
  \<open>2^27\<close>, the rounded \<^verbatim>\<open>i*i\<close> compares with \<open>n\<close> as the exact square does, and \<^verbatim>\<open>n/i\<close> is
  computed only where \<open>i\<close> divides \<open>n\<close>, where it is exact. The source starts the loop
  at 2, so the divisor of \<^verbatim>\<open>n%i\<close> is never zero.
\<close>

function trialFactor_loop :: "int \<Rightarrow> int \<Rightarrow> (int \<times> int) option" where
  "trialFactor_loop n i =
     (if i * i \<le> n
      then (if js_rem n i = 0 then Some (i, n div i) else trialFactor_loop n (i + 1))
      else None)"
  by pat_completeness auto
termination
proof (relation "measure (\<lambda>(n, i). nat (n + 1 - i))")
  show "wf (measure (\<lambda>(n, i). nat (n + 1 - i)))" by simp
next
  fix n i :: int
  assume le: "i * i \<le> n"
  have "i \<le> i * i"
  proof (cases "i \<le> 0")
    case True
    have "0 \<le> i * i" by simp
    with True show ?thesis by linarith
  next
    case False
    then have "1 * i \<le> i * i" by (intro mult_right_mono) auto
    then show ?thesis by simp
  qed
  with le have "i \<le> n" by linarith
  then show "((n, i + 1), (n, i)) \<in> measure (\<lambda>(n, i). nat (n + 1 - i))" by simp
qed

definition trialFactor :: "int \<Rightarrow> (int \<times> int) option" where
  "trialFactor n = trialFactor_loop n 2"

text \<open>
  The call \<^verbatim>\<open>trialFactor(N)\<close> on any number. On NaN and on \<open>-\<infinity>\<close> the test \<^verbatim>\<open>i*i<=n\<close> fails
  at once and the result is \<^verbatim>\<open>null\<close>. On \<open>+\<infinity>\<close> the test holds for ever and \<^verbatim>\<open>n%i\<close> is NaN,
  so the loop never returns: that is the outer \<open>None\<close>.
\<close>

fun trialFactor_num :: "jsnum \<Rightarrow> (jsnum \<times> jsnum) option option" where
  "trialFactor_num (Fin n) =
     Some (case trialFactor n of None \<Rightarrow> None | Some (i, j) \<Rightarrow> Some (Fin i, Fin j))"
| "trialFactor_num NaN = Some None"
| "trialFactor_num NInf = Some None"
| "trialFactor_num PInf = None"

section \<open>The RSA lab: one level's state and \<^verbatim>\<open>compute\<close>\<close>

text \<open>
  An input field of a level holds a text, or a number that a preset puts there
  (\<^verbatim>\<open>def.given.p ?? ''\<close>). A field is modelled by what \<^verbatim>\<open>p ? Number(p) : null\<close> makes of it:
  \<open>None\<close> for the empty text, \<open>Some (Fin k)\<close> for an integer numeral within the range of
  the doubles, \<open>Some NaN\<close> for a text that is no numeral, an infinity for a numeral beyond
  the range. Numerals with a fractional part are outside the model.

  \<open>truthy\<close> is JavaScript's truthiness on a value that is \<^verbatim>\<open>null\<close> or a number (\<^verbatim>\<open>null\<close>,
  \<open>0\<close> and NaN are falsy), \<open>toNumber\<close> the conversion that \<^verbatim>\<open>*\<close>, \<^verbatim>\<open>-\<close> and \<^verbatim>\<open>%\<close> apply to their
  operands (\<^verbatim>\<open>null\<close> becomes \<open>0\<close>).
\<close>

type_synonym field = "jsnum option"

definition truthy :: "jsnum option \<Rightarrow> bool" where
  "truthy v = (case v of None \<Rightarrow> False | Some x \<Rightarrow> x \<noteq> Fin 0 \<and> x \<noteq> NaN)"

definition toNumber :: "jsnum option \<Rightarrow> jsnum" where
  "toNumber v = (case v of None \<Rightarrow> Fin 0 | Some x \<Rightarrow> x)"

text \<open>The object \<^verbatim>\<open>{N,phi,D,P,Q}\<close> that \<^verbatim>\<open>compute\<close> stores on success.\<close>

record rsa_out =
  out_N :: jsnum
  out_phi :: jsnum
  out_D :: "jsnum option"
  out_P :: jsnum
  out_Q :: jsnum

text \<open>
  \<^verbatim>\<open>try{
    let P=p?Number(p):null; let Q=...; let N=...; const E=e?Number(e):null;
    if(P&&Q) N=P*Q;
    if((!P||!Q) && N){ const fac=trialFactor(N); if(fac){ P=fac[0]; Q=fac[1]; } }
    if(!P||!Q||!N) throw new Error(...);
    const phi=(P-1)*(Q-1); const D=modInv(E, phi); setOut({N,phi,D,P,Q});
  }catch(err){ setOut({error: err.message}); }\<close>

  The result is \<open>None\<close> when \<^verbatim>\<open>compute\<close> never returns (the loop of \<^verbatim>\<open>trialFactor\<close> does not
  end), \<open>Some (Inl err)\<close> when the \<^verbatim>\<open>catch\<close> stores the message of \<open>err\<close>, and
  \<open>Some (Inr r)\<close> when the \<^verbatim>\<open>try\<close> block stores \<open>r\<close>.
\<close>

definition compute_out :: "field \<Rightarrow> field \<Rightarrow> field \<Rightarrow> field \<Rightarrow> (error + rsa_out) option" where
  "compute_out p q n e =
     (let P0 = p; Q0 = q; N0 = n; E = e;
          N1 = (if truthy P0 \<and> truthy Q0 then Some (num_mul (toNumber P0) (toNumber Q0))
                else N0);
          fac = (if (\<not> truthy P0 \<or> \<not> truthy Q0) \<and> truthy N1
                 then trialFactor_num (toNumber N1) else Some None)
      in case fac of
           None \<Rightarrow> None
         | Some fac' \<Rightarrow>
             (let (P1, Q1) = (case fac' of Some (f0, f1) \<Rightarrow> (Some f0, Some f1)
                                         | None \<Rightarrow> (P0, Q0))
              in if \<not> truthy P1 \<or> \<not> truthy Q1 \<or> \<not> truthy N1
                 then Some (Inl MissingKeyMaterial)
                 else (let phi = num_mul (num_sub (toNumber P1) (Fin 1))
                                         (num_sub (toNumber Q1) (Fin 1))
                       in case modInv (toNumber E) phi of
                            Inl err \<Rightarrow> Some (Inl err)
                          | Inr D \<Rightarrow>
                              Some (Inr \<lparr>out_N = toNumber N1, out_phi = phi, out_D = D,
                                         out_P = toNumber P1, out_Q = toNumber Q1\<rparr>))))"

text \<open>
  The React state of one \<^verbatim>\<open>RSALevel\<close>: the five input fields, the hint text and the
  output. \<^verbatim>\<open>compute\<close> reads the fields and calls \<^verbatim>\<open>setOut\<close> only; \<open>None\<close> again says that
  it never returns.
\<close>

record rsa_level =
  fld_p :: field
  fld_q :: field
  fld_n :: field
  fld_e :: field
  fld_d :: field
  hint :: string
  out :: "(error + rsa_out) option"

definition compute :: "rsa_level \<Rightarrow> rsa_level option" where
  "compute st =
     (case compute_out (fld_p st) (fld_q st) (fld_n st) (fld_e st) of
        None \<Rightarrow> None
      | Some res \<Rightarrow> Some (st\<lparr>out := Some res\<rparr>))"

text \<open>The presets \<^verbatim>\<open>rsaLevels\<close> (their \<^verbatim>\<open>given\<close> objects) and a level's initial state.\<close>

record rsa_given =
  given_p :: "jsnum option"
  given_q :: "jsnum option"
  given_n :: "jsnum option"
  given_e :: "jsnum option"

definition L1 :: rsa_given where
  "L1 = \<lparr>given_p = Some (Fin 17), given_q = Some (Fin 23), given_n = None,
          given_e = Some (Fin 3)\<rparr>"

definition L2 :: rsa_given where
  "L2 = \<lparr>given_p = Some (Fin 19), given_q = Some (Fin 23), given_n = Some (Fin 437),
          given_e = Some (Fin 5)\<rparr>"

definition L3 :: rsa_given where
  "L3 = \<lparr>given_p = None, given_q = None, given_n = Some (Fin 667), given_e = Some (Fin 7)\<rparr>"

definition RSALevel :: "rsa_given \<Rightarrow> rsa_level" where
  "RSALevel def =
     \<lparr>fld_p = given_p def, fld_q = given_q def, fld_n = given_n def, fld_e = given_e def,
      fld_d = None, hint = [], out = None\<rparr>"

text \<open>
  The inputs on which the arithmetic of \<^verbatim>\<open>compute\<close> is exact: a field that is empty or
  holds an integer of magnitude at most \<open>b\<close>, and a field that is empty or holds any
  finite integer.
\<close>

definition int_field :: "int \<Rightarrow> field \<Rightarrow> bool" where
  "int_field b f = (case f of None \<Rightarrow> True | Some (Fin k) \<Rightarrow> \<bar>k\<bar> \<le> b | Some _ \<Rightarrow> False)"

definition finite_field :: "field \<Rightarrow> bool" where
  "finite_field f = (case f of None \<Rightarrow> True | Some (Fin k) \<Rightarrow> True | Some _ \<Rightarrow> False)"

section \<open>The attack simulator\<close>

text \<open>
  An account's \<^verbatim>\<open>vulns\<close> and \<^verbatim>\<open>controls\<close> are object literals from flag names to
  booleans: maps. The lookup \<^verbatim>\<open>account.vulns[v]\<close> yields the object's own value where the
  key is present; otherwise it yields what every object inherits from
  \<^verbatim>\<open>Object.prototype\<close> under that name, a function or an object and therefore truthy, and
  \<^verbatim>\<open>undefined\<close> for every other name. \<open>Object_prototype_names\<close> lists the inherited names
  of the language standard. The display texts (\<^verbatim>\<open>label\<close>, \<^verbatim>\<open>name\<close>, \<^verbatim>\<open>description\<close>) play no
  part in the decision and are left out; the three \<^verbatim>\<open>reason\<close> texts are the three
  constructors of \<open>reason\<close>, in the order of the source.
\<close>

record account =
  acc_id :: string
  username :: string
  password :: string
  vulns :: "string \<rightharpoonup> bool"
  controls :: "string \<rightharpoonup> bool"

record attack_method =
  method_key :: string
  exploits :: "string list"
  blockedBy :: "string list"

datatype reason = NoMatchingVulnerability | BlockedByControl | LoginEstablished

record attack_result =
  success :: bool
  reason :: reason

definition Object_prototype_names :: "string list" where
  "Object_prototype_names =
     [''constructor'', ''hasOwnProperty'', ''isPrototypeOf'', ''propertyIsEnumerable'',
      ''toLocaleString'', ''toString'', ''valueOf'', ''__proto__'', ''__defineGetter__'',
      ''__defineSetter__'', ''__lookupGetter__'', ''__lookupSetter__'']"

definition flag_set :: "(string \<rightharpoonup> bool) \<Rightarrow> string \<Rightarrow> bool" where
  "flag_set m k = (case m k of Some b \<Rightarrow> b | None \<Rightarrow> k \<in> set Object_prototype_names)"

definition simulateAttack :: "account \<Rightarrow> attack_method \<Rightarrow> attack_result" where
  "simulateAttack acct method =
     (let hitVuln = list_ex (\<lambda>v. flag_set (vulns acct) v) (exploits method)
      in if \<not> hitVuln then \<lparr>success = False, reason = NoMatchingVulnerability\<rparr>
         else if list_ex (\<lambda>b. flag_set (controls acct) b) (blockedBy method)
              then \<lparr>success = False, reason = BlockedByControl\<rparr>
              else \<lparr>success = True, reason = LoginEstablished\<rparr>)"

definition userA :: account where
  "userA = \<lparr>acc_id = ''userA'', username = ''u123456@univ.ac.jp'', password = ''Tennis2024'',
     vulns = map_of [(''reused'', True), (''weakPattern'', True), (''phishable'', True),
                     (''exposedEmail'', True)],
     controls = map_of [(''mfa'', False), (''pm'', False)]\<rparr>"

definition userB :: account where
  "userB = \<lparr>acc_id = ''userB'', username = ''club_b'', password = ''Mar14rally!'',
     vulns = map_of [(''reused'', False), (''weakPattern'', True), (''phishable'', True),
                     (''exposedEmail'', False)],
     controls = map_of [(''mfa'', True), (''pm'', False)]\<rparr>"

definition userC :: account where
  "userC = \<lparr>acc_id = ''userC'', username = ''c_blog'', password = ''V7t9-kp3Q-ax4M'',
     vulns = map_of [(''reused'', False), (''weakPattern'', False), (''phishable'', False),
                     (''exposedEmail'', True)],
     controls = map_of [(''mfa'', True), (''pm'', True)]\<rparr>"

definition demoAccounts :: "account list" where
  "demoAccounts = [userA, userB, userC]"

definition leak :: attack_method where
  "leak = \<lparr>method_key = ''leak'', exploits = [''reused''], blockedBy = [''mfa'']\<rparr>"

definition phish :: attack_method where
  "phish = \<lparr>method_key = ''phish'', exploits = [''phishable''], blockedBy = [''mfa'']\<rparr>"

definition guess :: attack_method where
  "guess = \<lparr>method_key = ''guess'', exploits = [''weakPattern''], blockedBy = []\<rparr>"

definition social :: attack_method where
  "social = \<lparr>method_key = ''social'', exploits = [''exposedEmail''], blockedBy = [''mfa'']\<rparr>"

definition attackMethods :: "attack_method list" where
  "attackMethods = [leak, phish, guess, social]"


section \<open>The router\<close>

text \<open>
  Paths and work identifiers are strings. \<^verbatim>\<open>s.startsWith(t)\<close> is \<open>prefix t s\<close>,
  \<^verbatim>\<open>s.endsWith(t)\<close> is \<open>suffix t s\<close>, \<^verbatim>\<open>s.slice(0,-1)\<close> is \<open>butlast s\<close>, \<^verbatim>\<open>s.slice(k)\<close> is
  \<open>drop k s\<close>, and \<^verbatim>\<open>s.replace(/^\/+/, "")\<close> removes the leading slashes. The empty
  string is the only falsy string.
\<close>

definition WORK_KEYS :: "string list" where
  "WORK_KEYS = [''1'', ''2'', ''3'']"

definition DEFAULT_WORK_ID :: string where
  "DEFAULT_WORK_ID = ''all''"

definition startsWith :: "string \<Rightarrow> string \<Rightarrow> bool" where
  "startsWith s t = prefix t s"

definition endsWith :: "string \<Rightarrow> string \<Rightarrow> bool" where
  "endsWith s t = suffix t s"

definition stripLeadingSlashes :: "string \<Rightarrow> string" where
  "stripLeadingSlashes s = dropWhile (\<lambda>c. c = CHR ''/'') s"

text \<open>
  \<^verbatim>\<open>import.meta.env.BASE_URL\<close> is set by the build and is not part of the source file: it
  is the parameter \<open>base_url\<close>, \<open>None\<close> when it is undefined
  (\<^verbatim>\<open>import.meta.env.BASE_URL ?? "/"\<close>).
\<close>

definition getNormalizedBasePath :: "string option \<Rightarrow> string" where
  "getNormalizedBasePath base_url =
     (let base = (case base_url of None \<Rightarrow> ''/'' | Some b \<Rightarrow> b);
          withoutTrailingSlash = (if endsWith base ''/'' then butlast base else base)
      in if withoutTrailingSlash = [] then []
         else if startsWith withoutTrailingSlash ''/'' then withoutTrailingSlash
         else ''/'' @ withoutTrailingSlash)"

definition stripBaseFromPath :: "string option \<Rightarrow> string \<Rightarrow> string" where
  "stripBaseFromPath base_url pathname =
     (let normalizedBase = getNormalizedBasePath base_url
      in if normalizedBase = [] then stripLeadingSlashes pathname
         else if startsWith pathname normalizedBase
              then (let remainder = drop (length normalizedBase) pathname
                    in stripLeadingSlashes remainder)
              else stripLeadingSlashes pathname)"

text \<open>
  \<^verbatim>\<open>s.split("/")\<close>: the pieces between the slashes, empty ones included; the empty string
  gives one empty piece.
\<close>

fun split_slash :: "string \<Rightarrow> string list" where
  "split_slash [] = [[]]"
| "split_slash (c # cs) =
     (if c = CHR ''/'' then [] # split_slash cs
      else (case split_slash cs of
              [] \<Rightarrow> [[c]]
            | seg # segs \<Rightarrow> (c # seg) # segs))"

text \<open>
  \<^verbatim>\<open>const [firstSegment] = remainder.split("/").filter(Boolean);\<close> leaves
  \<^verbatim>\<open>firstSegment\<close> undefined on an empty array, which is falsy.
\<close>

definition parseWorkId :: "string option \<Rightarrow> string \<Rightarrow> string" where
  "parseWorkId base_url pathname =
     (if pathname = [] then DEFAULT_WORK_ID
      else (let remainder = stripBaseFromPath base_url pathname
            in if remainder = [] then DEFAULT_WORK_ID
               else (case filter (\<lambda>seg. seg \<noteq> []) (split_slash remainder) of
                       [] \<Rightarrow> DEFAULT_WORK_ID
                     | firstSegment # _ \<Rightarrow>
                         if firstSegment \<noteq> [] \<and> firstSegment \<in> set WORK_KEYS
                         then firstSegment else DEFAULT_WORK_ID)))"

definition buildPathFromWorkId :: "string option \<Rightarrow> string \<Rightarrow> string" where
  "buildPathFromWorkId base_url workId' =
     (let normalizedBase = getNormalizedBasePath base_url
      in if workId' = DEFAULT_WORK_ID
         then (if normalizedBase = [] then ''/'' else normalizedBase)
         else normalizedBase @ ''/'' @ workId')"

text \<open>
  The hook \<^verbatim>\<open>useWorkRoute\<close>. Its state is the identifier \<open>workId\<close>; the host environment
  is \<open>location\<close>, the current \<^verbatim>\<open>window.location.pathname\<close> (\<open>None\<close> where
  \<^verbatim>\<open>typeof window === "undefined"\<close>), and \<open>pushed\<close>, the paths given to
  \<^verbatim>\<open>history.pushState\<close> so far. Two things change the state after the first render: a
  \<^verbatim>\<open>popstate\<close> event, which the browser raises after it has moved the location to some
  path of its history, and a call of \<^verbatim>\<open>navigate\<close>. Without a window no listener is
  registered and \<^verbatim>\<open>navigate\<close> returns at once.
\<close>

record route_state =
  workId :: string
  location :: "string option"
  pushed :: "string list"

definition useWorkRoute :: "string option \<Rightarrow> string \<Rightarrow> string option \<Rightarrow> route_state" where
  "useWorkRoute base_url defaultWorkId window =
     \<lparr>workId = (case window of None \<Rightarrow> defaultWorkId
                            | Some pathname \<Rightarrow> parseWorkId base_url pathname),
      location = window, pushed = []\<rparr>"

definition handlePopstate :: "string option \<Rightarrow> string \<Rightarrow> route_state \<Rightarrow> route_state" where
  "handlePopstate base_url pathname st =
     (case location st of
        None \<Rightarrow> st
      | Some _ \<Rightarrow> st\<lparr>workId := parseWorkId base_url pathname, location := Some pathname\<rparr>)"

definition navigate :: "string option \<Rightarrow> string \<Rightarrow> route_state \<Rightarrow> route_state" where
  "navigate base_url nextId st =
     (case location st of
        None \<Rightarrow> st
      | Some pathname \<Rightarrow>
          (let normalized = (if nextId \<in> set WORK_KEYS then nextId else DEFAULT_WORK_ID);
               nextPath = buildPathFromWorkId base_url normalized;
               st' = (if pathname \<noteq> nextPath
                      then st\<lparr>location := Some nextPath, pushed := pushed st @ [nextPath]\<rparr>
                      else st)
           in st'\<lparr>workId := normalized\<rparr>))"

datatype route_event = Popstate string | Navigate string

fun route_step :: "string option \<Rightarrow> route_state \<Rightarrow> route_event \<Rightarrow> route_state" where
  "route_step base_url st (Popstate pathname) = handlePopstate base_url pathname st"
| "route_step base_url st (Navigate nextId) = navigate base_url nextId st"

definition route_run :: "string option \<Rightarrow> route_state \<Rightarrow> route_event list \<Rightarrow> route_state" where
  "route_run base_url st evs = foldl (route_step base_url) st evs"

text \<open>
  What \<^verbatim>\<open>App\<close> renders in \<^verbatim>\<open><main>\<close>, from the three conditions of the source: every
  section when the identifier is the default one, the section found in
  \<^verbatim>\<open>WORK_SECTIONS\<close> (whose ids are \<open>1\<close>, \<open>2\<close>, \<open>3\<close>) otherwise, and the not-found card
  when \<^verbatim>\<open>find\<close> returns nothing.
\<close>

definition WORK_SECTIONS :: "string list" where
  "WORK_SECTIONS = [''1'', ''2'', ''3'']"

datatype view = ShowAll | ShowWork string | NotFound

definition App_view :: "string \<Rightarrow> view" where
  "App_view activeWorkId =
     (let activeWork = find (\<lambda>work. work = activeWorkId) WORK_SECTIONS
      in if activeWorkId = DEFAULT_WORK_ID then ShowAll
         else (case activeWork of Some work \<Rightarrow> ShowWork work | None \<Rightarrow> NotFound))"

text \<open>\<^verbatim>\<open>App\<close> calls \<^verbatim>\<open>useWorkRoute(DEFAULT_WORK_ID)\<close>.\<close>

definition App_route :: "string option \<Rightarrow> string option \<Rightarrow> route_state" where
  "App_route base_url window = useWorkRoute base_url DEFAULT_WORK_ID window"


section \<open>The router's contract, in the words of the specification\<close>

text \<open>
  The specification describes \<^verbatim>\<open>parseWorkId\<close> as: strip the configured base prefix, take
  the first non-empty segment, return it if it is a known identifier and the show-all
  identifier otherwise. These three definitions follow that description, not the source;
  they are compared with \<open>parseWorkId\<close> below.
\<close>

definition first_nonempty_segment :: "string \<Rightarrow> string" where
  "first_nonempty_segment s =
     takeWhile (\<lambda>c. c \<noteq> CHR ''/'') (dropWhile (\<lambda>c. c = CHR ''/'') s)"

definition strip_base_prefix :: "string \<Rightarrow> string \<Rightarrow> string" where
  "strip_base_prefix base pathname =
     (if prefix base pathname then drop (length base) pathname else pathname)"

definition spec_parseWorkId :: "string option \<Rightarrow> string \<Rightarrow> string" where
  "spec_parseWorkId base_url pathname =
     (let seg = first_nonempty_segment
                  (strip_base_prefix (getNormalizedBasePath base_url) pathname)
      in if seg \<in> {''1'', ''2'', ''3''} then seg else ''all'')"

section \<open>Facts about rounding\<close>

lemma toDouble_exact: "\<bar>k\<bar> \<le> 2 ^ 53 \<Longrightarrow> toDouble k = Fin k"
  by (simp add: toDouble_def)

lemma round_half_even_lower: "n div d \<le> round_half_even n d"
  by (simp add: round_half_even_def Let_def)

lemma round_half_even_le_succ: "round_half_even n d \<le> n div d + 1"
  by (simp add: round_half_even_def Let_def)

lemma div_mult_eq_minus_mod: "n div d * d = n - n mod (d::int)"
  by (simp add: minus_mod_eq_div_mult)

lemma div_mult_le_self: "0 < d \<Longrightarrow> n div d * d \<le> (n::int)"
  using pos_mod_sign [of d n] by (simp add: div_mult_eq_minus_mod)

lemma round_half_even_upper: "2 * (round_half_even n d * d) \<le> 2 * n + d" if "0 < d"
proof -
  define q where "q = n div d"
  define r where "r = n mod d"
  have qd: "q * d = n - r" unfolding q_def r_def by (rule div_mult_eq_minus_mod)
  have r: "0 \<le> r" unfolding r_def using that by simp
  have lo: "2 * (q * d) \<le> 2 * n + d" unfolding qd using r that by arith
  have rhe: "round_half_even n d =
      (if 2 * r < d then q else if d < 2 * r then q + 1 else if even q then q else q + 1)"
    by (simp add: round_half_even_def Let_def q_def r_def)
  show ?thesis
  proof (cases "2 * r < d")
    case True
    with rhe have "round_half_even n d = q" by simp
    with lo show ?thesis by simp
  next
    case False
    have "2 * ((q + 1) * d) = 2 * (q * d) + 2 * d" by (simp add: algebra_simps)
    also have "\<dots> \<le> 2 * n + d" unfolding qd using False by arith
    finally have up: "2 * ((q + 1) * d) \<le> 2 * n + d" .
    from rhe have "round_half_even n d = q \<or> round_half_even n d = q + 1"
      by (simp split: if_splits)
    with up lo show ?thesis by auto
  qed
qed

lemma toDouble_finite:
  assumes "\<bar>k\<bar> < 2 ^ 1023"
  shows "\<exists>j. toDouble k = Fin j \<and> \<bar>j\<bar> \<le> 2 * \<bar>k\<bar>"
proof (cases "\<bar>k\<bar> \<le> 2 ^ 53")
  case True
  then show ?thesis by (simp add: toDouble_exact)
next
  case False
  let ?n = "\<bar>k\<bar>"
  let ?u = "(2::int) ^ nat (bitlen ?n - 53)"
  let ?m = "round_half_even ?n ?u * ?u"
  have "(0::int) \<le> 2 ^ 53" by simp
  with False have npos: "0 < ?n" by linarith
  have u: "0 < ?u" by simp
  have "nat (bitlen ?n - 53) \<le> nat (bitlen ?n - 1)" by simp
  then have "?u \<le> 2 ^ nat (bitlen ?n - 1)" by (intro power_increasing) auto
  also have "\<dots> \<le> ?n" using bitlen_bounds [OF npos] by simp
  finally have un: "?u \<le> ?n" .
  have "?m \<le> (?n div ?u + 1) * ?u"
    using round_half_even_le_succ [of ?n ?u] u by (intro mult_right_mono) auto
  also have "\<dots> = ?n div ?u * ?u + ?u" by (simp add: algebra_simps)
  also have "\<dots> \<le> ?n + ?u" using div_mult_le_self [OF u, of ?n] by linarith
  finally have m_le: "?m \<le> 2 * ?n" using un by linarith
  have "0 \<le> ?n div ?u" using u npos by (simp add: pos_imp_zdiv_nonneg_iff)
  with round_half_even_lower [of ?n ?u] have "0 \<le> round_half_even ?n ?u" by linarith
  then have m_ge: "0 \<le> ?m" using u by simp
  from m_le assms have "?m < 2 ^ 1024" by simp
  with False have "toDouble k = Fin (sgn k * ?m)"
    by (simp add: toDouble_def Let_def)
  moreover have "\<bar>sgn k * ?m\<bar> \<le> 2 * ?n"
  proof -
    from npos have "\<bar>sgn k\<bar> = 1" by (simp add: abs_sgn_eq)
    then have "\<bar>sgn k * ?m\<bar> = \<bar>?m\<bar>" by (simp only: abs_mult mult_1)
    also have "\<dots> = ?m" using m_ge by (rule abs_of_nonneg)
    finally show ?thesis using m_le by simp
  qed
  ultimately show ?thesis by blast
qed

lemma quot_exponent_lower:
  assumes "0 < n" "0 < d"
  shows "(0 \<le> quot_exponent n d \<longrightarrow> d * 2 ^ nat (quot_exponent n d) \<le> n)
       \<and> (quot_exponent n d < 0 \<longrightarrow> d \<le> n * 2 ^ nat (- quot_exponent n d))"
proof -
  let ?e0 = "bitlen n - bitlen d"
  let ?c = "(if 0 \<le> ?e0 then d * 2 ^ nat ?e0 \<le> n else d \<le> n * 2 ^ nat (- ?e0))"
  have bn: "2 ^ nat (bitlen n - 1) \<le> n" using bitlen_bounds [OF assms(1)] by simp
  have bd: "d < 2 ^ nat (bitlen d)" using bitlen_bounds [OF assms(2)] by simp
  have bn1: "1 \<le> bitlen n" using assms(1) bitlen_eq_zero_iff [of n] bitlen_nonneg [of n] by linarith
  have bd1: "1 \<le> bitlen d" using assms(2) bitlen_eq_zero_iff [of d] bitlen_nonneg [of d] by linarith
  show ?thesis
  proof (cases ?c)
    case True
    then have "quot_exponent n d = ?e0" by (simp add: quot_exponent_def Let_def)
    with True show ?thesis by (auto split: if_splits)
  next
    case False
    then have e: "quot_exponent n d = ?e0 - 1" by (simp add: quot_exponent_def Let_def)
    show ?thesis
    proof (cases "0 \<le> ?e0 - 1")
      case True
      have "d * 2 ^ nat (?e0 - 1) \<le> 2 ^ nat (bitlen d) * 2 ^ nat (?e0 - 1)"
        using bd by (intro mult_right_mono) auto
      also have "\<dots> = 2 ^ (nat (bitlen d) + nat (?e0 - 1))" by (simp add: power_add)
      also have "nat (bitlen d) + nat (?e0 - 1) = nat (bitlen n - 1)"
        using True bd1 by simp
      finally have "d * 2 ^ nat (?e0 - 1) \<le> n" using bn by linarith
      with True e show ?thesis by simp
    next
      case neg: False
      have "d \<le> 2 ^ nat (bitlen d)" using bd by simp
      also have "nat (bitlen d) = nat (bitlen n - 1) + nat (- (?e0 - 1))"
        using neg bn1 by simp
      also have "(2::int) ^ (nat (bitlen n - 1) + nat (- (?e0 - 1))) =
          2 ^ nat (bitlen n - 1) * 2 ^ nat (- (?e0 - 1))" by (simp add: power_add)
      also have "\<dots> \<le> n * 2 ^ nat (- (?e0 - 1))"
        using bn by (intro mult_right_mono) auto
      finally show ?thesis using neg e by simp
    qed
  qed
qed

lemma quot_exponent_le_52:
  assumes "0 < n" "n < 2 ^ 53" "0 < d"
  shows "quot_exponent n d \<le> 52"
proof -
  have "bitlen n \<le> 53" using assms(2) by (simp add: bitlen_le_iff_power)
  moreover have "1 \<le> bitlen d"
    using assms(3) bitlen_eq_zero_iff [of d] bitlen_nonneg [of d] by linarith
  moreover have "quot_exponent n d \<le> bitlen n - bitlen d"
    by (simp add: quot_exponent_def Let_def)
  ultimately show ?thesis by linarith
qed


lemma div_eq_between:
  fixes m s q :: int
  assumes "0 < s" "q * s \<le> m" "m < (q + 1) * s"
  shows "m div s = q"
proof (rule int_div_pos_eq [of m s q "m - s * q"])
  show "m = s * q + (m - s * q)" by simp
  show "0 \<le> m - s * q" using assms(2) by (simp add: mult.commute)
  show "m - s * q < s" using assms(3) by (simp add: algebra_simps)
qed

lemma floor_quot_int_exact:
  assumes a: "0 < a" "a < 2 ^ 53" and b: "0 < b" "b < 2 ^ 53"
  shows "floor_quot_int a b = a div b"
proof -
  define e where "e = quot_exponent a b"
  define S :: int where "S = 2 ^ nat (52 - e)"
  define M where "M = round_half_even (a * S) b"
  define q where "q = a div b"
  have e52: "e \<le> 52" unfolding e_def using a b(1) by (rule quot_exponent_le_52)
  have S: "0 < S" unfolding S_def by simp
  have sig: "quot_significand a b = M"
    using e52 by (simp add: quot_significand_def Let_def e_def [symmetric] M_def S_def)
  have fq: "floor_quot_int a b = M div S"
  proof (cases "e = 52")
    case True
    then have "S = 1" by (simp add: S_def)
    with True a b sig show ?thesis
      by (simp add: floor_quot_int_def Let_def e_def [symmetric])
  next
    case False
    with e52 have "\<not> 52 \<le> e" by simp
    with a b sig show ?thesis
      by (simp add: floor_quot_int_def Let_def e_def [symmetric] S_def)
  qed
  have b2S: "b < 2 * S"
  proof (cases "0 \<le> e")
    case True
    with quot_exponent_lower [OF a(1) b(1)] have "b * 2 ^ nat e \<le> a" by (simp add: e_def)
    with a(2) have "b * 2 ^ nat e < 2 ^ 53" by linarith
    also have "(2::int) ^ 53 = 2 ^ (nat (53 - e) + nat e)" using True e52 by (simp add: nat_add_distrib [symmetric])
    also have "\<dots> = 2 ^ nat (53 - e) * 2 ^ nat e" by (simp add: power_add)
    finally have "b < 2 ^ nat (53 - e)" by simp
    also have "nat (53 - e) = Suc (nat (52 - e))" using e52 by simp
    finally show ?thesis by (simp add: S_def)
  next
    case False
    then have "(53::nat) \<le> nat (53 - e)" by simp
    then have "(2::int) ^ 53 \<le> 2 ^ nat (53 - e)" by (intro power_increasing) auto
    with b(2) have "b < 2 ^ nat (53 - e)" by linarith
    also have "nat (53 - e) = Suc (nat (52 - e))" using False by simp
    finally show ?thesis by (simp add: S_def)
  qed
  have qb: "q * b \<le> a" unfolding q_def using b(1) by (rule div_mult_le_self)
  have aqb: "a + 1 \<le> (q + 1) * b"
  proof -
    have "a = q * b + a mod b" unfolding q_def by simp
    moreover have "a mod b < b" using b(1) by simp
    ultimately show ?thesis by (simp add: algebra_simps)
  qed
  have lower: "q * S \<le> M"
  proof -
    have "q * S * b \<le> a * S" using qb S by (simp add: mult.commute mult.left_commute mult_le_cancel_left_pos)
    then have "(q * S * b) div b \<le> (a * S) div b" using b(1) by (intro zdiv_mono1) auto
    then have "q * S \<le> (a * S) div b" using b(1) by simp
    with round_half_even_lower [of "a * S" b] show ?thesis by (simp add: M_def)
  qed
  have upper: "M < (q + 1) * S"
  proof (rule ccontr)
    assume "\<not> M < (q + 1) * S"
    then have "(q + 1) * S \<le> M" by simp
    then have "(q + 1) * S * b \<le> M * b" using b(1) by (intro mult_right_mono) auto
    with round_half_even_upper [OF b(1), of "a * S"]
    have 1: "2 * ((q + 1) * S * b) \<le> 2 * (a * S) + b" by (simp add: M_def)
    have "S * (a + 1) \<le> S * ((q + 1) * b)" using aqb S by (intro mult_left_mono) auto
    then have 2: "2 * (a * S) + 2 * S \<le> 2 * ((q + 1) * S * b)" by (simp add: algebra_simps)
    from 1 2 have "2 * S \<le> b" by linarith
    with b2S show False by simp
  qed
  from div_eq_between [OF S lower upper] fq show ?thesis by (simp add: q_def)
qed

lemma floor_quot_exact:
  assumes "0 \<le> a" "a < 2 ^ 53" "0 < b" "b < 2 ^ 53"
  shows "floor_quot (Fin a) (Fin b) = Fin (a div b)"
proof (cases "a = 0")
  case True
  with assms show ?thesis by (simp add: floor_quot_int_def)
next
  case False
  with assms have "0 < a" by simp
  from floor_quot_int_exact [OF this assms(2,3,4)] assms(3) show ?thesis by simp
qed

section \<open>Facts about the remainder and the extended Euclidean algorithm\<close>

lemma egcd_zero: "egcd a (Fin 0) = Some (a, Fin 1, Fin 0)"
  by (subst egcd.simps) simp

lemma egcd_step:
  "b \<noteq> Fin 0 \<Longrightarrow> egcd b (num_rem a b) = Some (g, y1, x1) \<Longrightarrow>
     egcd a b = Some (g, x1, num_sub y1 (num_mul (floor_quot a b) x1))"
  by (subst egcd.simps) simp

lemma egcd_step_None: "b \<noteq> Fin 0 \<Longrightarrow> egcd b (num_rem a b) = None \<Longrightarrow> egcd a b = None"
  by (subst egcd.simps) simp

lemma js_rem_pos: "0 \<le> a \<Longrightarrow> 0 < b \<Longrightarrow> js_rem a b = a mod b"
  by (simp add: js_rem_def sgn_if)

lemma js_rem_eq_0_iff: "js_rem n i = 0 \<longleftrightarrow> i dvd n"
proof -
  have "js_rem n i = 0 \<longleftrightarrow> \<bar>n\<bar> mod \<bar>i\<bar> = 0"
    by (cases "n = 0") (simp_all add: js_rem_def sgn_if)
  also have "\<dots> \<longleftrightarrow> \<bar>i\<bar> dvd \<bar>n\<bar>" by (simp add: dvd_eq_mod_eq_0)
  finally show ?thesis by simp
qed

lemma gcd_js_rem: "gcd (js_rem a b) b = gcd a b"
proof -
  have "gcd (js_rem a b) b = gcd \<bar>b\<bar> (\<bar>a\<bar> mod \<bar>b\<bar>)"
    by (cases "a = 0") (simp_all add: js_rem_def sgn_if gcd.commute)
  also have "\<dots> = gcd \<bar>a\<bar> \<bar>b\<bar>" by (rule gcd_red_int [symmetric])
  finally show ?thesis by simp
qed

lemma js_rem_abs_less: "b \<noteq> 0 \<Longrightarrow> \<bar>js_rem a b\<bar> < \<bar>b\<bar>"
  by (simp add: js_rem_def abs_mult abs_sgn_eq)

lemma js_rem_mod: "0 < m \<Longrightarrow> js_rem a m mod m = a mod m"
proof (cases "0 \<le> a")
  case True
  assume "0 < m"
  with True show ?thesis by (simp add: js_rem_pos)
next
  case False
  assume m: "0 < m"
  from False have "js_rem a m = - ((- a) mod m)" using m by (simp add: js_rem_def sgn_if)
  then show ?thesis by (simp add: mod_minus_eq)
qed

text \<open>On finite arguments the recursion ends, and its \<open>g\<close> is the gcd up to sign.\<close>

lemma egcd_finite:
  "\<exists>g x y. egcd (Fin a) (Fin b) = Some (Fin g, x, y) \<and> \<bar>g\<bar> = gcd a b"
proof (induction "nat \<bar>b\<bar>" arbitrary: a b rule: less_induct)
  case less
  show ?case
  proof (cases "b = 0")
    case True
    then show ?thesis by (simp add: egcd_zero)
  next
    case False
    from js_rem_abs_less [OF False, of a] have "nat \<bar>js_rem a b\<bar> < nat \<bar>b\<bar>" by simp
    from less [OF this, of b] obtain g x y where
      r: "egcd (Fin b) (Fin (js_rem a b)) = Some (Fin g, x, y)" and g: "\<bar>g\<bar> = gcd b (js_rem a b)"
      by blast
    from False have nz: "Fin b \<noteq> Fin 0" by simp
    from False r have "egcd (Fin b) (num_rem (Fin a) (Fin b)) = Some (Fin g, x, y)" by simp
    from egcd_step [OF nz this]
    have "egcd (Fin a) (Fin b) =
        Some (Fin g, y, num_sub x (num_mul (floor_quot (Fin a) (Fin b)) y))" .
    moreover have "gcd b (js_rem a b) = gcd a b"
      using gcd_js_rem [of a b] by (simp add: gcd.commute)
    ultimately show ?thesis using g by simp
  qed
qed

text \<open>Once an argument is NaN the recursion does not end, unless it stops at once.\<close>

lemma egcd_Some_not_NaN:
  assumes "egcd a b = Some r"
  shows "(a = NaN \<longrightarrow> b = Fin 0) \<and> b \<noteq> NaN"
proof (rule egcd.raw_induct [where P = "\<lambda>a b r. (a = NaN \<longrightarrow> b = Fin 0) \<and> b \<noteq> NaN"])
  show "egcd a b = Some r" by (rule assms)
next
  fix f :: "jsnum \<Rightarrow> jsnum \<Rightarrow> (jsnum \<times> jsnum \<times> jsnum) option" and a b r
  assume IH: "\<And>a b r. f a b = Some r \<Longrightarrow> (a = NaN \<longrightarrow> b = Fin 0) \<and> b \<noteq> NaN"
  assume eq: "(if b = Fin 0 then Some (a, Fin 1, Fin 0)
        else Option.bind (f b (num_rem a b))
              (\<lambda>(g, y1, x1). Some (g, x1, num_sub y1 (num_mul (floor_quot a b) x1)))) = Some r"
  show "(a = NaN \<longrightarrow> b = Fin 0) \<and> b \<noteq> NaN"
  proof (cases "b = Fin 0")
    case True
    then show ?thesis by simp
  next
    case False
    with eq obtain r' where "f b (num_rem a b) = Some r'"
      by (auto simp: bind_eq_Some_conv)
    from IH [OF this] have "num_rem a b \<noteq> NaN" by simp
    then show ?thesis by (cases a; cases b) auto
  qed
qed

lemma egcd_NaN: "b \<noteq> Fin 0 \<Longrightarrow> egcd NaN b = None"
  using egcd_Some_not_NaN [of NaN b] by (cases "egcd NaN b") auto

text \<open>On naturals below \<open>2^53\<close> nothing is rounded.\<close>

lemma egcd_exact:
  assumes "0 \<le> a" "a < 2 ^ 53" "0 \<le> b" "b < 2 ^ 53"
  shows "\<exists>x y. egcd (Fin a) (Fin b) = Some (Fin (gcd a b), Fin x, Fin y)
           \<and> a * x + b * y = gcd a b \<and> \<bar>x\<bar> \<le> max b 1 \<and> \<bar>y\<bar> \<le> max a 1"
  using assms
proof (induction "nat b" arbitrary: a b rule: less_induct)
  case less
  show ?case
  proof (cases "b = 0")
    case True
    with less.prems show ?thesis by (simp add: egcd_zero)
  next
    case False
    with less.prems have bpos: "0 < b" by simp
    define r where "r = a mod b"
    define q where "q = a div b"
    have r: "0 \<le> r" "r < b" using bpos by (simp_all add: r_def)
    have rem: "num_rem (Fin a) (Fin b) = Fin r"
      using less.prems bpos by (simp add: js_rem_pos r_def)
    have fq: "floor_quot (Fin a) (Fin b) = Fin q"
      unfolding q_def using less.prems(1,2) bpos less.prems(4) by (rule floor_quot_exact)
    have nz: "Fin b \<noteq> Fin 0" using False by simp
    have a_eq: "a = q * b + r" by (simp add: q_def r_def)
    have q0: "0 \<le> q" using less.prems(1) bpos by (simp add: q_def pos_imp_zdiv_nonneg_iff)
    have qb_le: "q * b \<le> a" using a_eq r(1) by linarith
    have g_eq: "gcd b r = gcd a b"
      unfolding r_def by (metis gcd.commute gcd_red_int)
    have two53: "(1::int) \<le> 2 ^ 53" by simp
    show ?thesis
    proof (cases "r = 0")
      case True
      have "egcd (Fin b) (num_rem (Fin a) (Fin b)) = Some (Fin b, Fin 1, Fin 0)"
        by (simp only: rem True egcd_zero)
      from egcd_step [OF nz this]
      have "egcd (Fin a) (Fin b) = Some (Fin b, Fin 0, num_sub (Fin 1) (num_mul (Fin q) (Fin 0)))"
        by (simp only: fq)
      then have e: "egcd (Fin a) (Fin b) = Some (Fin b, Fin 0, Fin 1)"
        by (simp add: num_sub_def toDouble_exact)
      from True g_eq bpos have "gcd a b = b" by simp
      with e bpos show ?thesis by (intro exI [of _ 0] exI [of _ 1]) simp
    next
      case rnz: False
      with r have rpos: "0 < r" by simp
      have "nat r < nat b" using r by simp
      from less.hyps [OF this less.prems(3) less.prems(4) r(1)] r(2) less.prems(4)
      obtain y1 x1 where
        rec: "egcd (Fin b) (Fin r) = Some (Fin (gcd b r), Fin y1, Fin x1)"
        and bez: "b * y1 + r * x1 = gcd b r"
        and by1: "\<bar>y1\<bar> \<le> max r 1" and bx1: "\<bar>x1\<bar> \<le> max b 1"
        by force
      from by1 rpos have by1': "\<bar>y1\<bar> \<le> r" by simp
      from bx1 bpos have bx1': "\<bar>x1\<bar> \<le> b" by simp
      have "\<bar>q * x1\<bar> = q * \<bar>x1\<bar>" using q0 by (simp add: abs_mult)
      also have "\<dots> \<le> q * b" using bx1' q0 by (intro mult_left_mono) auto
      finally have qx: "\<bar>q * x1\<bar> \<le> q * b" .
      with qb_le less.prems(2) have "\<bar>q * x1\<bar> \<le> 2 ^ 53" by linarith
      then have mul: "num_mul (Fin q) (Fin x1) = Fin (q * x1)" by (simp add: toDouble_exact)
      have "\<bar>y1 - q * x1\<bar> \<le> \<bar>y1\<bar> + \<bar>q * x1\<bar>" by simp
      also have "\<dots> \<le> r + q * b" using by1' qx by linarith
      also have "\<dots> = a" using a_eq by simp
      finally have ya: "\<bar>y1 - q * x1\<bar> \<le> a" .
      with less.prems(2) have "\<bar>y1 - q * x1\<bar> \<le> 2 ^ 53" by linarith
      then have sub: "num_sub (Fin y1) (Fin (q * x1)) = Fin (y1 - q * x1)"
        by (simp add: num_sub_def toDouble_exact)
      have "egcd (Fin b) (num_rem (Fin a) (Fin b)) = Some (Fin (gcd b r), Fin y1, Fin x1)"
        by (simp only: rem rec)
      from egcd_step [OF nz this]
      have e: "egcd (Fin a) (Fin b) = Some (Fin (gcd a b), Fin x1, Fin (y1 - q * x1))"
        by (simp only: fq mul sub g_eq)
      have "a * x1 + b * (y1 - q * x1) = b * y1 + (a - q * b) * x1" by (simp add: algebra_simps)
      also have "a - q * b = r" using a_eq by simp
      also have "b * y1 + r * x1 = gcd a b" using bez g_eq by simp
      finally have bz: "a * x1 + b * (y1 - q * x1) = gcd a b" .
      have "\<bar>x1\<bar> \<le> max b 1" using bx1 .
      moreover have "\<bar>y1 - q * x1\<bar> \<le> max a 1" using ya by simp
      ultimately show ?thesis using e bz by blast
    qed
  qed
qed

section \<open>Facts about the modular inverse\<close>

lemma js_rem_norm: "0 < m \<Longrightarrow> js_rem (js_rem a m + m) m = a mod m"
proof -
  assume m: "0 < m"
  from js_rem_abs_less [of m a] m have "0 \<le> js_rem a m + m" by simp
  then have "js_rem (js_rem a m + m) m = (js_rem a m + m) mod m"
    using m by (simp add: js_rem_pos)
  also have "\<dots> = js_rem a m mod m" by simp
  finally show ?thesis using m by (simp add: js_rem_mod)
qed

lemma gcd_js_rem_norm: "gcd (js_rem (js_rem a m + m) m) m = gcd a m"
proof -
  have "gcd (js_rem (js_rem a m + m) m) m = gcd (js_rem a m + m) m" by (rule gcd_js_rem)
  also have "\<dots> = gcd (js_rem a m) m" by simp
  also have "\<dots> = gcd a m" by (rule gcd_js_rem)
  finally show ?thesis .
qed

text \<open>The normalisation \<^verbatim>\<open>(a%m+m)%m\<close>: exact for a modulus up to \<open>2^52\<close>, finite far beyond.\<close>

lemma num_norm_exact:
  assumes "m \<noteq> 0" "\<bar>m\<bar> \<le> 2 ^ 52"
  shows "num_rem (num_add (num_rem (Fin a) (Fin m)) (Fin m)) (Fin m) =
           Fin (js_rem (js_rem a m + m) m)"
proof -
  from js_rem_abs_less [OF assms(1), of a] have "\<bar>js_rem a m + m\<bar> < 2 * \<bar>m\<bar>" by linarith
  with assms(2) have "\<bar>js_rem a m + m\<bar> \<le> 2 ^ 53" by simp
  with assms(1) show ?thesis by (simp add: toDouble_exact)
qed

lemma num_norm_finite:
  assumes "m \<noteq> 0" "\<bar>m\<bar> < 2 ^ 1022"
  shows "\<exists>j. num_rem (num_add (num_rem (Fin a) (Fin m)) (Fin m)) (Fin m) = Fin j"
proof -
  from js_rem_abs_less [OF assms(1), of a] have "\<bar>js_rem a m + m\<bar> < 2 * \<bar>m\<bar>" by linarith
  with assms(2) have "\<bar>js_rem a m + m\<bar> < 2 ^ 1023" by simp
  from toDouble_finite [OF this] obtain j where "toDouble (js_rem a m + m) = Fin j" by blast
  with assms(1) show ?thesis by simp
qed

lemma modInv_zero_modulus: "modInv a (Fin 0) = Inr None"
proof -
  have "num_rem (num_add (num_rem a (Fin 0)) (Fin 0)) (Fin 0) = NaN"
    by (cases a) simp_all
  then show ?thesis by (simp add: modInv_def egcd_zero)
qed

text \<open>\<^verbatim>\<open>modInv\<close> returns on finite arguments.\<close>

lemma modInv_total:
  assumes "\<bar>m\<bar> < 2 ^ 1022"
  shows "\<exists>d. modInv (Fin a) (Fin m) = Inr d"
proof (cases "m = 0")
  case True
  then show ?thesis by (simp add: modInv_zero_modulus)
next
  case False
  from num_norm_finite [OF False assms, of a] obtain j where
    j: "num_rem (num_add (num_rem (Fin a) (Fin m)) (Fin m)) (Fin m) = Fin j" by blast
  from egcd_finite [of j m] obtain g x y where "egcd (Fin j) (Fin m) = Some (Fin g, x, y)"
    by blast
  with j show ?thesis by (simp add: modInv_def)
qed

text \<open>A returned inverse certifies coprimality, whatever the signs of the arguments.\<close>

lemma modInv_Some_coprime:
  assumes "\<bar>m\<bar> \<le> 2 ^ 52" and "modInv (Fin a) (Fin m) = Inr (Some d)"
  shows "gcd a m = 1"
proof -
  from assms(2) have m: "m \<noteq> 0" by (auto simp: modInv_zero_modulus)
  let ?a' = "js_rem (js_rem a m + m) m"
  from egcd_finite [of ?a' m] obtain g x y where
    r: "egcd (Fin ?a') (Fin m) = Some (Fin g, x, y)" and g: "\<bar>g\<bar> = gcd ?a' m" by blast
  note n = num_norm_exact [OF m assms(1), of a]
  from assms(2) have "g = 1"
    unfolding modInv_def n r by (simp split: if_splits)
  with g show ?thesis by (simp add: gcd_js_rem_norm)
qed

lemma modInv_not_coprime:
  assumes "\<bar>m\<bar> \<le> 2 ^ 52" and "gcd a m \<noteq> 1"
  shows "modInv (Fin a) (Fin m) = Inr None"
proof -
  have "(2::int) ^ 52 < 2 ^ 1022" by simp
  with assms(1) have "\<bar>m\<bar> < 2 ^ 1022" by linarith
  from modInv_total [OF this, of a] obtain d where d: "modInv (Fin a) (Fin m) = Inr d" by blast
  show ?thesis
  proof (cases d)
    case None
    with d show ?thesis by simp
  next
    case (Some d')
    with d modInv_Some_coprime [OF assms(1), of a d'] assms(2) show ?thesis by simp
  qed
qed

text \<open>The inverse of zero: it exists for the modulus one only.\<close>

lemma modInv_zero:
  assumes "\<bar>m\<bar> \<le> 2 ^ 53"
  shows "modInv (Fin 0) (Fin m) = Inr (if m = 1 then Some (Fin 0) else None)"
proof (cases "m = 0")
  case True
  then show ?thesis by (simp add: modInv_zero_modulus)
next
  case False
  then have nz: "Fin m \<noteq> Fin 0" by simp
  have z: "num_rem (num_add (num_rem (Fin 0) (Fin m)) (Fin m)) (Fin m) = Fin 0"
    using False assms by (simp add: js_rem_def toDouble_exact)
  have "egcd (Fin m) (num_rem (Fin 0) (Fin m)) = Some (Fin m, Fin 1, Fin 0)"
    using False by (simp add: js_rem_def egcd_zero)
  from egcd_step [OF nz this]
  have e: "egcd (Fin 0) (Fin m) = Some (Fin m, Fin 0, num_sub (Fin 1)
      (num_mul (floor_quot (Fin 0) (Fin m)) (Fin 0)))" .
  show ?thesis
  proof (cases "m = 1")
    case True
    have "num_rem (num_add (num_rem (Fin 0) (Fin 1)) (Fin 1)) (Fin 1) = Fin 0"
      by (simp add: js_rem_def toDouble_exact)
    with True e z show ?thesis by (simp add: modInv_def)
  next
    case False
    with e z show ?thesis by (simp add: modInv_def)
  qed
qed

text \<open>A NaN operand makes \<^verbatim>\<open>modInv\<close> exhaust the stack, unless the modulus is zero.\<close>

lemma modInv_NaN: "m \<noteq> Fin 0 \<Longrightarrow> modInv NaN m = Inl StackExhausted"
proof -
  assume m: "m \<noteq> Fin 0"
  have "num_rem (num_add (num_rem NaN m) m) m = NaN" by simp
  with egcd_NaN [OF m] show ?thesis by (simp add: modInv_def)
qed

lemma modInv_NaN_modulus: "modInv a NaN = Inl StackExhausted"
proof -
  have "num_rem (num_add (num_rem a NaN) NaN) NaN = NaN" by (cases a) simp_all
  with egcd_NaN [of NaN] show ?thesis by (simp add: modInv_def)
qed

lemma modInv_exact:
  assumes "0 \<le> e" and "1 < m" and "m \<le> 2 ^ 52"
  shows "(gcd e m = 1 \<longrightarrow>
            (\<exists>d. modInv (Fin e) (Fin m) = Inr (Some (Fin d)) \<and> 0 \<le> d \<and> d < m
                  \<and> (e * d) mod m = 1))
         \<and> (gcd e m \<noteq> 1 \<longrightarrow> modInv (Fin e) (Fin m) = Inr None)"
proof -
  from assms have m: "0 < m" "m \<noteq> 0" "\<bar>m\<bar> \<le> 2 ^ 52" by simp_all
  have "(2::int) ^ 52 < 2 ^ 53" by simp
  with assms(3) have m53: "m < 2 ^ 53" by linarith
  have a': "num_rem (num_add (num_rem (Fin e) (Fin m)) (Fin m)) (Fin m) = Fin (e mod m)"
    using num_norm_exact [OF m(2,3), of e] m(1) by (simp add: js_rem_norm)
  have em: "0 \<le> e mod m" "e mod m < 2 ^ 53" using m(1) m53
    by (simp, smt (verit) pos_mod_bound)
  from egcd_exact [OF em _ m53] m(1) obtain x y where
    r: "egcd (Fin (e mod m)) (Fin m) = Some (Fin (gcd (e mod m) m), Fin x, Fin y)"
    and bez: "(e mod m) * x + m * y = gcd (e mod m) m"
    and bx: "\<bar>x\<bar> \<le> max m 1" by force
  have gg: "gcd (e mod m) m = gcd e m" by (metis gcd.commute gcd_red_int)
  have xn: "num_rem (num_add (num_rem (Fin x) (Fin m)) (Fin m)) (Fin m) = Fin (x mod m)"
    using num_norm_exact [OF m(2,3), of x] m(1) by (simp add: js_rem_norm)
  have inv: "modInv (Fin e) (Fin m) =
      (if gcd e m \<noteq> 1 then Inr None else Inr (Some (Fin (x mod m))))"
    unfolding modInv_def a' r by (simp only: option.case prod.case gg xn) simp
  show ?thesis
  proof (intro conjI impI)
    assume g1: "gcd e m = 1"
    have "(e * (x mod m)) mod m = ((e mod m) * x) mod m"
      by (simp add: mod_mult_eq mod_mult_left_eq mod_mult_right_eq)
    also have "(e mod m) * x = 1 - m * y" using bez gg g1 by simp
    also have "(1 - m * y) mod m = 1 mod m"
      by (metis diff_conv_add_uminus mod_mult_self2 mult_minus_right)
    also have "\<dots> = 1" using assms by simp
    finally have "(e * (x mod m)) mod m = 1" .
    with inv g1 m(1)
    show "\<exists>d. modInv (Fin e) (Fin m) = Inr (Some (Fin d)) \<and> 0 \<le> d \<and> d < m
              \<and> (e * d) mod m = 1"
      by simp
  next
    assume "gcd e m \<noteq> 1"
    with inv show "modInv (Fin e) (Fin m) = Inr None" by simp
  qed
qed

section \<open>Facts about trial division\<close>

declare trialFactor_loop.simps [simp del]

lemma trialFactor_loop_Some:
  "trialFactor_loop n i = Some (p, q) \<Longrightarrow>
     i \<le> p \<and> p * p \<le> n \<and> p dvd n \<and> q = n div p \<and> (\<forall>j. i \<le> j \<and> j < p \<longrightarrow> \<not> j dvd n)"
proof (induction n i rule: trialFactor_loop.induct)
  case (1 n i)
  from "1.prems" have le: "i * i \<le> n"
    by (simp add: trialFactor_loop.simps [of n i] split: if_splits)
  show ?case
  proof (cases "js_rem n i = 0")
    case True
    with le have "trialFactor_loop n i = Some (i, n div i)"
      by (simp add: trialFactor_loop.simps [of n i])
    with "1.prems" have "p = i" "q = n div i" by auto
    with le True show ?thesis by (auto simp: js_rem_eq_0_iff)
  next
    case False
    with le have "trialFactor_loop n i = trialFactor_loop n (i + 1)"
      by (simp add: trialFactor_loop.simps [of n i])
    with "1.prems" have "trialFactor_loop n (i + 1) = Some (p, q)" by simp
    from "1.IH" [OF le False this]
    have ih: "i + 1 \<le> p" "p * p \<le> n" "p dvd n" "q = n div p"
      "\<forall>j. i + 1 \<le> j \<and> j < p \<longrightarrow> \<not> j dvd n" by simp_all
    have "\<not> j dvd n" if "i \<le> j" "j < p" for j
    proof (cases "j = i")
      case True
      with False show ?thesis by (simp add: js_rem_eq_0_iff)
    next
      case False
      with that ih(5) show ?thesis by simp
    qed
    with ih show ?thesis by simp
  qed
qed

lemma trialFactor_loop_None:
  "trialFactor_loop n i = None \<Longrightarrow> i \<le> j \<Longrightarrow> j * j \<le> n \<Longrightarrow> 0 \<le> i \<Longrightarrow> \<not> j dvd n"
proof (induction n i rule: trialFactor_loop.induct)
  case (1 n i)
  have mono: "i * i \<le> j * j" using "1.prems" by (intro mult_mono) auto
  with "1.prems" have le: "i * i \<le> n" by linarith
  with "1.prems" have nz: "js_rem n i \<noteq> 0"
    by (auto simp add: trialFactor_loop.simps [of n i] split: if_splits)
  with le "1.prems" have nxt: "trialFactor_loop n (i + 1) = None"
    by (simp add: trialFactor_loop.simps [of n i])
  show ?case
  proof (cases "j = i")
    case True
    with nz show ?thesis by (simp add: js_rem_eq_0_iff)
  next
    case False
    with "1.prems" have "i + 1 \<le> j" by simp
    from "1.IH" [OF le nz nxt this "1.prems"(3)] "1.prems"(4) show ?thesis by simp
  qed
qed

lemma trialFactor_667: "trialFactor 667 = Some (23, 29)"
  by code_simp

lemma trialFactor_7: "trialFactor 7 = None"
  by code_simp

lemma trialFactor_15: "trialFactor 15 = Some (3, 5)"
  by code_simp

section \<open>Facts about \<^verbatim>\<open>compute\<close>\<close>

lemma toNumber_Some [simp]: "toNumber (Some x) = x"
  by (simp add: toNumber_def)

lemma toNumber_None [simp]: "toNumber None = Fin 0"
  by (simp add: toNumber_def)

lemma trialFactor_truthy:
  assumes "trialFactor n = Some (f0, f1)"
  shows "2 \<le> f0 \<and> 2 \<le> f1 \<and> f0 * f1 = n"
proof -
  from assms have "trialFactor_loop n 2 = Some (f0, f1)" by (simp add: trialFactor_def)
  from trialFactor_loop_Some [OF this]
  have f: "2 \<le> f0" "f0 * f0 \<le> n" "f0 dvd n" "f1 = n div f0" by simp_all
  from f(1,2) have "(f0 * f0) div f0 \<le> n div f0" by (intro zdiv_mono1) auto
  with f(1) have "f0 \<le> n div f0" by simp
  with f show ?thesis by simp
qed

text \<open>The three ways through \<^verbatim>\<open>compute\<close>.\<close>

lemma compute_out_both:
  assumes "truthy p" "truthy q" "truthy (Some (num_mul (toNumber p) (toNumber q)))"
  shows "compute_out p q n e =
     (case modInv (toNumber e)
             (num_mul (num_sub (toNumber p) (Fin 1)) (num_sub (toNumber q) (Fin 1))) of
        Inl err \<Rightarrow> Some (Inl err)
      | Inr D \<Rightarrow>
          Some (Inr \<lparr>out_N = num_mul (toNumber p) (toNumber q),
                     out_phi = num_mul (num_sub (toNumber p) (Fin 1))
                                       (num_sub (toNumber q) (Fin 1)),
                     out_D = D, out_P = toNumber p, out_Q = toNumber q\<rparr>))"
  using assms by (simp add: compute_out_def Let_def split: sum.splits)

lemma compute_out_factored:
  assumes "\<not> (truthy p \<and> truthy q)" and "trialFactor k = Some (f0, f1)"
  shows "compute_out p q (Some (Fin k)) e =
     (case modInv (toNumber e) (num_mul (num_sub (Fin f0) (Fin 1)) (num_sub (Fin f1) (Fin 1))) of
        Inl err \<Rightarrow> Some (Inl err)
      | Inr D \<Rightarrow>
          Some (Inr \<lparr>out_N = Fin k,
                     out_phi = num_mul (num_sub (Fin f0) (Fin 1)) (num_sub (Fin f1) (Fin 1)),
                     out_D = D, out_P = Fin f0, out_Q = Fin f1\<rparr>))"
proof -
  from trialFactor_truthy [OF assms(2)] have f: "f0 \<noteq> 0" "f1 \<noteq> 0" "k \<noteq> 0" by auto
  then have t: "truthy (Some (Fin k))" "truthy (Some (Fin f0))" "truthy (Some (Fin f1))"
    by (simp_all add: truthy_def)
  from assms t show ?thesis
    by (auto simp: compute_out_def Let_def split: sum.splits)
qed

lemma compute_out_missing:
  assumes "\<not> (truthy p \<and> truthy q)"
    and "\<not> truthy n \<or> trialFactor_num (toNumber n) = Some None"
  shows "compute_out p q n e = Some (Inl MissingKeyMaterial)"
  using assms by (auto simp: compute_out_def Let_def)

lemma compute_out_unresolved:
  "trialFactor n = None \<Longrightarrow> \<not> truthy p \<or> \<not> truthy q \<Longrightarrow>
     compute_out p q (Some (Fin n)) e = Some (Inl MissingKeyMaterial)"
  by (rule compute_out_missing) auto

text \<open>Only the reported inverse depends on the exponent.\<close>

lemma compute_out_change_e:
  assumes "compute_out p q n e = Some (Inr r)"
  shows "modInv (toNumber e) (out_phi r) = Inr (out_D r)
       \<and> (\<forall>e' d'. modInv (toNumber e') (out_phi r) = Inr d' \<longrightarrow>
              compute_out p q n e' = Some (Inr (r\<lparr>out_D := d'\<rparr>)))"
  using assms
  by (auto simp: compute_out_def Let_def split: option.splits if_splits sum.splits prod.splits)

lemma int_field_cases:
  "int_field b f \<Longrightarrow> f = None \<or> (\<exists>k. f = Some (Fin k) \<and> \<bar>k\<bar> \<le> b)"
  by (auto simp: int_field_def split: option.splits jsnum.splits)

lemma finite_field_cases: "finite_field f \<Longrightarrow> \<exists>k. toNumber f = Fin k"
  by (auto simp: finite_field_def split: option.splits jsnum.splits)

lemma truthy_Fin [simp]: "truthy (Some (Fin k)) \<longleftrightarrow> k \<noteq> 0"
  by (simp add: truthy_def)

lemma truthy_None [simp]: "\<not> truthy None"
  by (simp add: truthy_def)

lemma abs_mult_le:
  fixes a b :: int
  assumes "\<bar>a\<bar> \<le> c" "\<bar>b\<bar> \<le> d"
  shows "\<bar>a * b\<bar> \<le> c * d"
proof -
  have "\<bar>a * b\<bar> = \<bar>a\<bar> * \<bar>b\<bar>" by (rule abs_mult)
  also have "\<dots> \<le> c * d" using assms by (intro mult_mono) auto
  finally show ?thesis .
qed

text \<open>
  On small inputs \<^verbatim>\<open>compute\<close> either misses key material or reports exact values for a
  resolved key \<open>P\<close>, \<open>Q\<close>.
\<close>

lemma compute_out_exact:
  assumes p: "int_field (2 ^ 26 - 1) p" and q: "int_field (2 ^ 26 - 1) q"
    and n: "int_field (2 ^ 52) n" and e: "finite_field e"
  shows "(\<not> (truthy p \<and> truthy q)
          \<and> (\<not> truthy n \<or> trialFactor_num (toNumber n) = Some None)
          \<and> compute_out p q n e = Some (Inl MissingKeyMaterial))
       \<or> ((truthy p \<and> truthy q \<or> truthy n \<and> trialFactor_num (toNumber n) \<noteq> Some None)
          \<and> (\<exists>P Q ev d. toNumber e = Fin ev \<and> P \<noteq> 0 \<and> Q \<noteq> 0
                \<and> \<bar>(P - 1) * (Q - 1)\<bar> \<le> 2 ^ 52
                \<and> modInv (Fin ev) (Fin ((P - 1) * (Q - 1))) = Inr d
                \<and> compute_out p q n e =
                    Some (Inr \<lparr>out_N = Fin (P * Q), out_phi = Fin ((P - 1) * (Q - 1)),
                               out_D = d, out_P = Fin P, out_Q = Fin Q\<rparr>)))"
proof -
  from finite_field_cases [OF e] obtain ev where ev: "toNumber e = Fin ev" by blast
  have big: "(2::int) ^ 52 < 2 ^ 1022" "(2::int) ^ 52 \<le> 2 ^ 53" by simp_all
  show ?thesis
  proof (cases "truthy p \<and> truthy q")
    case True
    with int_field_cases [OF p] int_field_cases [OF q] obtain P Q where
      P: "p = Some (Fin P)" "\<bar>P\<bar> \<le> 2 ^ 26 - 1" "P \<noteq> 0"
      and Q: "q = Some (Fin Q)" "\<bar>Q\<bar> \<le> 2 ^ 26 - 1" "Q \<noteq> 0" by auto
    have "\<bar>P * Q\<bar> \<le> (2 ^ 26 - 1) * (2 ^ 26 - 1)" using P(2) Q(2) by (rule abs_mult_le)
    then have pq: "\<bar>P * Q\<bar> \<le> 2 ^ 53" by simp
    have "\<bar>P - 1\<bar> \<le> 2 ^ 26" "\<bar>Q - 1\<bar> \<le> 2 ^ 26" using P(2) Q(2) by simp_all
    then have "\<bar>(P - 1) * (Q - 1)\<bar> \<le> 2 ^ 26 * 2 ^ 26" by (rule abs_mult_le)
    then have phi: "\<bar>(P - 1) * (Q - 1)\<bar> \<le> 2 ^ 52" by simp
    have "\<bar>P - 1\<bar> \<le> 2 ^ 53" "\<bar>Q - 1\<bar> \<le> 2 ^ 53" using P(2) Q(2) by simp_all
    then have sub: "num_sub (Fin P) (Fin 1) = Fin (P - 1)" "num_sub (Fin Q) (Fin 1) = Fin (Q - 1)"
      by (simp_all add: num_sub_def toDouble_exact)
    have mul: "num_mul (Fin P) (Fin Q) = Fin (P * Q)" using pq by (simp add: toDouble_exact)
    have mulphi: "num_mul (Fin (P - 1)) (Fin (Q - 1)) = Fin ((P - 1) * (Q - 1))"
      using phi big(2) by (simp add: toDouble_exact)
    from phi big(1) have "\<bar>(P - 1) * (Q - 1)\<bar> < 2 ^ 1022" by linarith
    from modInv_total [OF this, of ev] obtain d where
      d: "modInv (Fin ev) (Fin ((P - 1) * (Q - 1))) = Inr d" by blast
    have "truthy (Some (num_mul (toNumber p) (toNumber q)))"
      using P Q by (simp add: mul del: num_mul.simps)
    from compute_out_both [OF _ _ this, of n e] True
    have "compute_out p q n e =
        Some (Inr \<lparr>out_N = Fin (P * Q), out_phi = Fin ((P - 1) * (Q - 1)),
                   out_D = d, out_P = Fin P, out_Q = Fin Q\<rparr>)"
      by (simp add: P(1) Q(1) sub mul mulphi ev d del: num_mul.simps)
    with True ev P(3) Q(3) phi d show ?thesis by blast
  next
    case False
    show ?thesis
    proof (cases "truthy n \<and> trialFactor_num (toNumber n) \<noteq> Some None")
      case nf: False
      then have "\<not> truthy n \<or> trialFactor_num (toNumber n) = Some None" by blast
      with False compute_out_missing [OF False this, of e] show ?thesis by blast
    next
      case True
      with int_field_cases [OF n] obtain k where
        k: "n = Some (Fin k)" "\<bar>k\<bar> \<le> 2 ^ 52" by auto
      with True obtain f0 f1 where f: "trialFactor k = Some (f0, f1)"
        by (cases "trialFactor k") auto
      from trialFactor_truthy [OF f] have f2: "2 \<le> f0" "2 \<le> f1" "f0 * f1 = k" by simp_all
      have "0 \<le> (f0 - 1) * (f1 - 1)" using f2 by simp
      moreover have "(f0 - 1) * (f1 - 1) \<le> f0 * f1"
        using f2 by (intro mult_mono) auto
      ultimately have phi: "\<bar>(f0 - 1) * (f1 - 1)\<bar> \<le> 2 ^ 52" using f2(3) k(2) by simp
      have "f0 * 1 \<le> f0 * f1" "1 * f1 \<le> f0 * f1"
        using f2 by (auto intro!: mult_left_mono mult_right_mono)
      with f2 k(2) have "\<bar>f0 - 1\<bar> \<le> 2 ^ 53" "\<bar>f1 - 1\<bar> \<le> 2 ^ 53" by simp_all
      then have sub: "num_sub (Fin f0) (Fin 1) = Fin (f0 - 1)"
        "num_sub (Fin f1) (Fin 1) = Fin (f1 - 1)"
        by (simp_all add: num_sub_def toDouble_exact)
      have mulphi: "num_mul (Fin (f0 - 1)) (Fin (f1 - 1)) = Fin ((f0 - 1) * (f1 - 1))"
        using phi big(2) by (simp add: toDouble_exact)
      from phi big(1) have "\<bar>(f0 - 1) * (f1 - 1)\<bar> < 2 ^ 1022" by linarith
      from modInv_total [OF this, of ev] obtain d where
        d: "modInv (Fin ev) (Fin ((f0 - 1) * (f1 - 1))) = Inr d" by blast
      from compute_out_factored [OF False f, of e]
      have "compute_out p q n e =
        Some (Inr \<lparr>out_N = Fin (f0 * f1), out_phi = Fin ((f0 - 1) * (f1 - 1)),
                   out_D = d, out_P = Fin f0, out_Q = Fin f1\<rparr>)"
        by (simp add: k(1) sub mulphi ev d f2(3) del: num_mul.simps)
      moreover have "f0 \<noteq> 0" "f1 \<noteq> 0" using f2 by simp_all
      ultimately show ?thesis using True ev phi d by blast
    qed
  qed
qed

section \<open>Values of \<^verbatim>\<open>modInv\<close> and \<^verbatim>\<open>compute\<close> on particular inputs\<close>

lemma modInv_3_352: "modInv (Fin 3) (Fin 352) = Inr (Some (Fin 235))"
  by code_simp

lemma modInv_rounded_1: "modInv (Fin 2) (Fin 9007199254740991) = Inr (Some (Fin 1))"
  by code_simp

lemma modInv_rounded_2:
  "modInv (Fin 12722) (Fin 9007199254740991) = Inr (Some (Fin 1079079605709085))"
  by code_simp

lemma gcd_2_rounded: "gcd (2::int) 9007199254740991 = 1"
  by code_simp

lemma gcd_12722: "gcd (12722::int) 9007199254740991 = 6361"
  by code_simp

lemma compute_out_L1:
  "compute_out (Some (Fin 17)) (Some (Fin 23)) None (Some (Fin 3)) =
     Some (Inr \<lparr>out_N = Fin 391, out_phi = Fin 352, out_D = Some (Fin 235),
                out_P = Fin 17, out_Q = Fin 23\<rparr>)"
  by code_simp

lemma compute_out_L3:
  "compute_out None None (Some (Fin 667)) (Some (Fin 7)) =
     Some (Inr \<lparr>out_N = Fin 667, out_phi = Fin 616, out_D = None,
                out_P = Fin 23, out_Q = Fin 29\<rparr>)"
  by code_simp

lemma compute_out_zero_p:
  "compute_out (Some (Fin 0)) (Some (Fin 5)) (Some (Fin 15)) (Some (Fin 3)) =
     Some (Inr \<lparr>out_N = Fin 15, out_phi = Fin 8, out_D = Some (Fin 3),
                out_P = Fin 3, out_Q = Fin 5\<rparr>)"
  by code_simp

lemma compute_out_rounded_product:
  "compute_out (Some (Fin 94906267)) (Some (Fin 94906267)) None (Some (Fin 5)) =
     Some (Inr \<lparr>out_N = Fin 9007199515875288, out_phi = Fin 9007199326062756,
                out_D = None, out_P = Fin 94906267, out_Q = Fin 94906267\<rparr>)"
  by code_simp

lemma compute_out_rounded_inverse:
  "compute_out (Some (Fin 9007199254740992)) (Some (Fin 2)) None (Some (Fin 12722)) =
     Some (Inr \<lparr>out_N = Fin 18014398509481984, out_phi = Fin 9007199254740991,
                out_D = Some (Fin 1079079605709085),
                out_P = Fin 9007199254740992, out_Q = Fin 2\<rparr>)"
  by code_simp

lemma compute_out_rounded_missing_e:
  "compute_out (Some (Fin 9007199254740992)) (Some (Fin 2)) None None =
     Some (Inr \<lparr>out_N = Fin 18014398509481984, out_phi = Fin 9007199254740991,
                out_D = None, out_P = Fin 9007199254740992, out_Q = Fin 2\<rparr>)"
  by code_simp

lemma compute_out_two_two:
  "compute_out (Some (Fin 2)) (Some (Fin 2)) None None =
     Some (Inr \<lparr>out_N = Fin 4, out_phi = Fin 1, out_D = Some (Fin 0),
                out_P = Fin 2, out_Q = Fin 2\<rparr>)"
  by code_simp

lemma compute_out_NaN_e:
  "compute_out (Some (Fin 17)) (Some (Fin 23)) None (Some NaN) = Some (Inl StackExhausted)"
proof -
  have "modInv NaN (Fin 352) = Inl StackExhausted" by (rule modInv_NaN) simp
  then show ?thesis
    by (simp add: compute_out_def Let_def truthy_def num_sub_def toDouble_exact)
qed

lemma compute_out_infinite_p:
  "compute_out (Some PInf) (Some (Fin 2)) None None = Some (Inl StackExhausted)"
proof -
  have phi: "num_mul (num_sub PInf (Fin 1)) (num_sub (Fin 2) (Fin 1)) = PInf"
    by (simp add: num_sub_def toDouble_exact)
  have "num_rem (num_add (num_rem (Fin 0) PInf) PInf) PInf = NaN" by simp
  with egcd_NaN [of PInf] have "modInv (Fin 0) PInf = Inl StackExhausted"
    by (simp add: modInv_def)
  moreover have "truthy (Some PInf)" "truthy (Some (Fin 2))"
    "truthy (Some (num_mul (toNumber (Some PInf)) (toNumber (Some (Fin 2)))))"
    by (simp_all add: truthy_def)
  note compute_out_both [OF this, of None None]
  ultimately show ?thesis by (simp add: phi del: num_mul.simps)
qed

lemma compute_out_infinite_n: "compute_out None None (Some PInf) e = None"
  by (simp add: compute_out_def Let_def truthy_def)

section \<open>Facts about the attack simulator\<close>

lemma flag_set_own:
  "k \<notin> set Object_prototype_names \<Longrightarrow> flag_set m k \<longleftrightarrow> m k = Some True"
  by (auto simp: flag_set_def split: option.splits)

section \<open>Facts about the router\<close>

lemma split_slash_hd:
  "split_slash s \<noteq> [] \<and> hd (split_slash s) = takeWhile (\<lambda>c. c \<noteq> CHR ''/'') s"
  by (induction s) (auto split: list.splits)

lemma first_segment_of_remainder:
  assumes "r \<noteq> []" and "hd r \<noteq> CHR ''/''"
  shows "filter (\<lambda>seg. seg \<noteq> []) (split_slash r) =
           takeWhile (\<lambda>c. c \<noteq> CHR ''/'') r # filter (\<lambda>seg. seg \<noteq> []) (tl (split_slash r))"
proof -
  from split_slash_hd [of r] obtain segs where
    s: "split_slash r = takeWhile (\<lambda>c. c \<noteq> CHR ''/'') r # segs"
    by (cases "split_slash r") auto
  from assms have "takeWhile (\<lambda>c. c \<noteq> CHR ''/'') r \<noteq> []" by (cases r) auto
  with s show ?thesis by simp
qed

lemma stripLeadingSlashes_hd:
  "stripLeadingSlashes s \<noteq> [] \<Longrightarrow> hd (stripLeadingSlashes s) \<noteq> CHR ''/''"
  unfolding stripLeadingSlashes_def by (metis (mono_tags, lifting) hd_dropWhile)

lemma stripBaseFromPath_eq:
  "stripBaseFromPath b p = stripLeadingSlashes (strip_base_prefix (getNormalizedBasePath b) p)"
  by (simp add: stripBaseFromPath_def strip_base_prefix_def startsWith_def Let_def)

lemma parseWorkId_eq_spec: "parseWorkId b p = spec_parseWorkId b p"
proof -
  let ?r = "stripBaseFromPath b p"
  let ?seg = "takeWhile (\<lambda>c. c \<noteq> CHR ''/'') ?r"
  have seg: "first_nonempty_segment (strip_base_prefix (getNormalizedBasePath b) p) = ?seg"
    by (simp add: first_nonempty_segment_def stripBaseFromPath_eq stripLeadingSlashes_def)
  have spec: "spec_parseWorkId b p = (if ?seg \<in> set WORK_KEYS then ?seg else DEFAULT_WORK_ID)"
    by (simp add: spec_parseWorkId_def seg Let_def WORK_KEYS_def DEFAULT_WORK_ID_def)
  show ?thesis
  proof (cases "?r = []")
    case True
    then have "parseWorkId b p = DEFAULT_WORK_ID" by (simp add: parseWorkId_def)
    moreover from True have "?seg = []" by simp
    ultimately show ?thesis by (simp add: spec WORK_KEYS_def)
  next
    case False
    then have "p \<noteq> []"
      by (auto simp: stripBaseFromPath_eq strip_base_prefix_def stripLeadingSlashes_def)
    moreover from False have "hd ?r \<noteq> CHR ''/''"
      by (simp add: stripBaseFromPath_eq stripLeadingSlashes_hd)
    note first_segment_of_remainder [OF False this]
    moreover from False \<open>hd ?r \<noteq> CHR ''/''\<close> have "?seg \<noteq> []" by (cases ?r) auto
    ultimately show ?thesis using False by (simp add: parseWorkId_def spec Let_def)
  qed
qed

lemma spec_parseWorkId_range: "spec_parseWorkId b p \<in> {''all'', ''1'', ''2'', ''3''}"
  by (simp add: spec_parseWorkId_def Let_def)

lemma parseWorkId_range: "parseWorkId b p \<in> set (DEFAULT_WORK_ID # WORK_KEYS)"
  using spec_parseWorkId_range [of b p]
  by (simp add: parseWorkId_eq_spec DEFAULT_WORK_ID_def WORK_KEYS_def)

lemma App_view_known:
  "w \<in> set (DEFAULT_WORK_ID # WORK_KEYS) \<Longrightarrow>
     App_view w = (if w = DEFAULT_WORK_ID then ShowAll else ShowWork w)"
  by (auto simp: App_view_def WORK_SECTIONS_def WORK_KEYS_def DEFAULT_WORK_ID_def)

lemma parseWorkId_root: "parseWorkId b ''/'' = DEFAULT_WORK_ID"
proof -
  have "set (strip_base_prefix (getNormalizedBasePath b) ''/'') \<subseteq> {CHR ''/''}"
    by (auto simp: strip_base_prefix_def dest: in_set_dropD)
  then have "stripBaseFromPath b ''/'' = []"
    unfolding stripBaseFromPath_eq stripLeadingSlashes_def dropWhile_eq_Nil_conv by blast
  then show ?thesis by (simp add: parseWorkId_def)
qed

lemma parseWorkId_base: "parseWorkId b (getNormalizedBasePath b) = DEFAULT_WORK_ID"
proof (cases "getNormalizedBasePath b = []")
  case True
  then show ?thesis by (simp add: parseWorkId_def)
next
  case False
  then have "stripBaseFromPath b (getNormalizedBasePath b) = []"
    by (simp add: stripBaseFromPath_def Let_def startsWith_def stripLeadingSlashes_def)
  then show ?thesis by (simp add: parseWorkId_def)
qed

lemma getNormalizedBasePath_app: "getNormalizedBasePath (Some ''/app/'') = ''/app''"
  by (simp add: getNormalizedBasePath_def endsWith_def startsWith_def suffix_to_prefix)

lemma route_init_valid: "workId (App_route b w) \<in> set (DEFAULT_WORK_ID # WORK_KEYS)"
proof (cases w)
  case None
  then show ?thesis by (simp add: App_route_def useWorkRoute_def)
next
  case (Some pathname)
  with parseWorkId_range [of b pathname] show ?thesis
    by (simp add: App_route_def useWorkRoute_def del: set_simps)
qed

lemma handlePopstate_valid:
  "workId st \<in> set (DEFAULT_WORK_ID # WORK_KEYS) \<Longrightarrow>
     workId (handlePopstate b path st) \<in> set (DEFAULT_WORK_ID # WORK_KEYS)"
  using parseWorkId_range [of b path]
  by (cases "location st") (simp_all add: handlePopstate_def del: set_simps)

lemma navigate_valid:
  "workId st \<in> set (DEFAULT_WORK_ID # WORK_KEYS) \<Longrightarrow>
     workId (navigate b nextId st) \<in> set (DEFAULT_WORK_ID # WORK_KEYS)"
  by (cases "location st") (simp_all add: navigate_def Let_def)

lemma route_step_valid:
  "workId st \<in> set (DEFAULT_WORK_ID # WORK_KEYS) \<Longrightarrow>
     workId (route_step b st ev) \<in> set (DEFAULT_WORK_ID # WORK_KEYS)"
  by (cases ev) (simp_all add: handlePopstate_valid navigate_valid del: set_simps)

lemma route_run_valid:
  "workId st \<in> set (DEFAULT_WORK_ID # WORK_KEYS) \<Longrightarrow>
     workId (route_run b st evs) \<in> set (DEFAULT_WORK_ID # WORK_KEYS)"
  unfolding route_run_def
  by (induction evs arbitrary: st) (simp_all add: route_step_valid del: set_simps)

section \<open>The modular inverse\<close>

text \<open>
  Claim C1, as the code has it. For all naturals \<open>e\<close> and \<open>m\<close> with \<open>1 < m \<le> 2^52\<close>: if
  \<open>gcd e m = 1\<close> then \<^verbatim>\<open>modInv(e, m)\<close> returns a number \<open>d\<close> with \<open>0 \<le> d < m\<close> and
  \<open>(e * d) mod m = 1\<close>, and if \<open>gcd e m \<noteq> 1\<close> it returns \<^verbatim>\<open>null\<close>. The modulus ranges over
  every value from two to \<open>2^52\<close>, so over every \<open>\<phi>(n)\<close> in that range: for a pair
  \<open>(e, \<phi>(n))\<close> that is coprime the returned inverse satisfies
  \<open>(e * modInv e \<phi>(n)) mod \<phi>(n) = 1\<close>.
\<close>

theorem modInv_inverse_iff_coprime:
  assumes "0 \<le> e" and "1 < m" and "m \<le> 2 ^ 52"
  shows "(gcd e m = 1 \<longrightarrow>
            (\<exists>d. modInv (Fin e) (Fin m) = Inr (Some (Fin d)) \<and> 0 \<le> d \<and> d < m
                  \<and> (e * d) mod m = 1))
         \<and> (gcd e m \<noteq> 1 \<longrightarrow> modInv (Fin e) (Fin m) = Inr None)"
  using assms by (rule modInv_exact)

text \<open>The theorem at \<open>e = 3\<close>, \<open>m = 352\<close> (coprime) and at \<open>e = 7\<close>, \<open>m = 616\<close> (not coprime).\<close>

theorem modInv_inverse_iff_coprime_witness:
  "(0::int) \<le> 3 \<and> (1::int) < 352 \<and> (352::int) \<le> 2 ^ 52 \<and> gcd (3::int) 352 = 1
   \<and> (\<exists>d. modInv (Fin 3) (Fin 352) = Inr (Some (Fin d)) \<and> 0 \<le> d \<and> d < 352
           \<and> (3 * d) mod 352 = 1)
   \<and> gcd (7::int) 616 \<noteq> 1 \<and> modInv (Fin 7) (Fin 616) = Inr None"
proof -
  have g1: "gcd (3::int) 352 = 1" by code_simp
  have g2: "gcd (7::int) 616 \<noteq> 1" by code_simp
  from modInv_inverse_iff_coprime [of 3 352] g1
  have "\<exists>d. modInv (Fin 3) (Fin 352) = Inr (Some (Fin d)) \<and> 0 \<le> d \<and> d < 352
           \<and> (3 * d) mod 352 = 1" by simp
  moreover from modInv_inverse_iff_coprime [of 7 616] g2
  have "modInv (Fin 7) (Fin 616) = Inr None" by simp
  ultimately show ?thesis using g1 g2 by simp
qed

text \<open>
  Claim C1 as stated, for every modulus above one, fails where the sum in \<^verbatim>\<open>(a%m+m)%m\<close>
  is rounded. With \<open>m = 2^53 - 1\<close> and \<open>e = 2\<close>, coprime, the sum \<open>2 + m\<close> rounds to \<open>2^53\<close>
  and \<^verbatim>\<open>modInv\<close> returns \<open>1\<close>, which is no inverse of \<open>2\<close>; with \<open>e = 12722\<close>, which shares
  the factor \<open>6361\<close> with \<open>m\<close>, it returns a number and not \<^verbatim>\<open>null\<close>.
\<close>

theorem modInv_rounding_counterexample:
  "(0::int) \<le> 2 \<and> (1::int) < 2 ^ 53 - 1 \<and> gcd (2::int) (2 ^ 53 - 1) = 1
   \<and> modInv (Fin 2) (Fin (2 ^ 53 - 1)) = Inr (Some (Fin 1))
   \<and> (2 * 1) mod (2 ^ 53 - 1) \<noteq> (1::int)
   \<and> gcd (12722::int) (2 ^ 53 - 1) \<noteq> 1
   \<and> modInv (Fin 12722) (Fin (2 ^ 53 - 1)) \<noteq> Inr None"
  by (simp add: modInv_rounded_1 modInv_rounded_2 gcd_12722 gcd_2_rounded)

section \<open>Trial division finds the smallest divisor\<close>

text \<open>
  Claim C3. For every natural \<open>n \<ge> 2\<close>, \<^verbatim>\<open>trialFactor(n)\<close> tries the candidates
  \<open>2, 3, \<dots>\<close> as long as their square is at most \<open>n\<close>. If it returns \<open>[p, q]\<close> then \<open>p\<close> is
  a candidate (\<open>2 \<le> p\<close>, \<open>p * p \<le> n\<close>) that divides \<open>n\<close>, no smaller candidate divides \<open>n\<close>,
  \<open>q = n / p\<close> and \<open>p * q = n\<close>. If it returns \<^verbatim>\<open>null\<close> then no candidate up to the root
  bound divides \<open>n\<close>, and \<^verbatim>\<open>compute\<close>, called with that \<open>n\<close> and with \<open>p\<close> or \<open>q\<close> missing,
  leaves them unresolved and ends in its missing-key-material error.
\<close>

theorem trialFactor_smallest_divisor:
  assumes "2 \<le> n"
  shows "case trialFactor n of
           Some (p, q) \<Rightarrow>
             2 \<le> p \<and> p * p \<le> n \<and> p dvd n \<and> q = n div p \<and> p * q = n
             \<and> (\<forall>j. 2 \<le> j \<and> j < p \<longrightarrow> \<not> j dvd n)
         | None \<Rightarrow>
             (\<forall>j. 2 \<le> j \<and> j * j \<le> n \<longrightarrow> \<not> j dvd n)
             \<and> (\<forall>p q e. \<not> truthy p \<or> \<not> truthy q \<longrightarrow>
                    compute_out p q (Some (Fin n)) e = Some (Inl MissingKeyMaterial))"
proof (cases "trialFactor n")
  case None
  then have "trialFactor_loop n 2 = None" by (simp add: trialFactor_def)
  from trialFactor_loop_None [OF this] compute_out_unresolved [OF None] None
  show ?thesis by simp
next
  case (Some r)
  obtain p q where r: "r = (p, q)" by (cases r)
  with Some have "trialFactor_loop n 2 = Some (p, q)" by (simp add: trialFactor_def)
  from trialFactor_loop_Some [OF this] Some r show ?thesis by simp
qed

text \<open>The theorem at \<open>n = 667 = 23 * 29\<close> and at the prime \<open>n = 7\<close>.\<close>

theorem trialFactor_smallest_divisor_witness:
  "(2::int) \<le> 667 \<and> trialFactor 667 = Some (23, 29) \<and> (23::int) * 29 = 667
   \<and> \<not> (2::int) dvd 667 \<and> \<not> (19::int) dvd 667
   \<and> (2::int) \<le> 7 \<and> trialFactor 7 = None \<and> \<not> (2::int) dvd 7
   \<and> compute_out None None (Some (Fin 7)) (Some (Fin 3)) = Some (Inl MissingKeyMaterial)"
  using trialFactor_smallest_divisor [of 667] trialFactor_smallest_divisor [of 7]
  by (simp add: trialFactor_667 trialFactor_7)

section \<open>The presets of the RSA lab\<close>

text \<open>
  Claim C2, evaluated on the code. For the preset L3 (\<open>n = 667\<close>, \<open>e = 7\<close>, no \<open>p\<close> and \<open>q\<close>)
  \<^verbatim>\<open>compute\<close> finds \<open>p = 23\<close> and \<open>q = 29\<close> by trial division and reports \<open>\<phi>(n) = 616\<close>, but
  it reports no \<open>d\<close>: \<open>616 = 7 * 88\<close>, so \<open>e = 7\<close> has no inverse modulo \<open>\<phi>(n)\<close>, and no
  integer \<open>d\<close> satisfies \<open>(7 * d) mod 616 = 1\<close>. The preset asks for a \<open>d\<close> that its
  own numbers exclude.
\<close>

theorem L3_compute_no_inverse:
  "compute (RSALevel L3) =
     Some ((RSALevel L3)\<lparr>out := Some (Inr \<lparr>out_N = Fin 667, out_phi = Fin 616, out_D = None,
                                             out_P = Fin 23, out_Q = Fin 29\<rparr>)\<rparr>)
   \<and> (\<forall>d::int. (7 * d) mod 616 \<noteq> 1)"
proof -
  have "\<forall>d::int. (7 * d) mod 616 \<noteq> 1"
  proof
    fix d :: int
    have "(7 * d) mod 616 = 7 * (d mod 88)" by (simp add: mult_mod_right)
    moreover have "7 * (d mod 88) \<noteq> 1" by presburger
    ultimately show "(7 * d) mod 616 \<noteq> 1" by simp
  qed
  then show ?thesis by (simp add: compute_def RSALevel_def L3_def compute_out_L3)
qed

text \<open>
  Claim C4, as the code has it. Whenever both \<open>p\<close> and \<open>q\<close> are supplied as nonzero
  integers whose product has magnitude at most \<open>2^53\<close>, and \<open>e\<close> is empty or a finite
  integer, \<^verbatim>\<open>compute\<close> reports \<open>n = p * q\<close> whatever \<open>n\<close> was supplied, together with the
  \<open>\<phi>(n)\<close> it computes from \<open>p\<close> and \<open>q\<close> and the result of \<^verbatim>\<open>modInv\<close> for \<open>e\<close> and that
  \<open>\<phi>(n)\<close>. For the preset L1 (\<open>p = 17\<close>, \<open>q = 23\<close>, \<open>e = 3\<close>) it reports \<open>n = 391\<close>,
  \<open>\<phi>(n) = 352\<close> and \<open>d = 235\<close>.
\<close>

theorem compute_overrides_supplied_n:
  "(p \<noteq> 0 \<and> q \<noteq> 0 \<and> \<bar>p * q\<bar> \<le> 2 ^ 53 \<and> finite_field e \<longrightarrow>
      (\<exists>d. modInv (toNumber e)
               (num_mul (num_sub (Fin p) (Fin 1)) (num_sub (Fin q) (Fin 1))) = Inr d
            \<and> compute_out (Some (Fin p)) (Some (Fin q)) n e =
                Some (Inr \<lparr>out_N = Fin (p * q),
                           out_phi = num_mul (num_sub (Fin p) (Fin 1)) (num_sub (Fin q) (Fin 1)),
                           out_D = d, out_P = Fin p, out_Q = Fin q\<rparr>)))
   \<and> compute (RSALevel L1) =
       Some ((RSALevel L1)\<lparr>out := Some (Inr \<lparr>out_N = Fin 391, out_phi = Fin 352,
                                               out_D = Some (Fin 235),
                                               out_P = Fin 17, out_Q = Fin 23\<rparr>)\<rparr>)"
proof (intro conjI impI)
  assume a: "p \<noteq> 0 \<and> q \<noteq> 0 \<and> \<bar>p * q\<bar> \<le> 2 ^ 53 \<and> finite_field e"
  then have pq: "\<bar>p * q\<bar> \<le> 2 ^ 53" and p0: "p \<noteq> 0" and q0: "q \<noteq> 0" by simp_all
  from a finite_field_cases obtain ev where ev: "toNumber e = Fin ev" by blast
  have "\<bar>p\<bar> * 1 \<le> \<bar>p\<bar> * \<bar>q\<bar>" "1 * \<bar>q\<bar> \<le> \<bar>p\<bar> * \<bar>q\<bar>"
    using p0 q0 by (auto intro!: mult_left_mono mult_right_mono)
  with pq have b: "\<bar>p\<bar> \<le> 2 ^ 53" "\<bar>q\<bar> \<le> 2 ^ 53" by (simp_all add: abs_mult)
  then have "\<bar>p - 1\<bar> < 2 ^ 1023" "\<bar>q - 1\<bar> < 2 ^ 1023" by simp_all
  from toDouble_finite [OF this(1)] toDouble_finite [OF this(2)] obtain j1 j2 where
    j1: "toDouble (p - 1) = Fin j1" "\<bar>j1\<bar> \<le> 2 * \<bar>p - 1\<bar>"
    and j2: "toDouble (q - 1) = Fin j2" "\<bar>j2\<bar> \<le> 2 * \<bar>q - 1\<bar>" by blast
  have "\<And>j x::int. \<bar>j\<bar> \<le> 2 * \<bar>x - 1\<bar> \<Longrightarrow> \<bar>x\<bar> \<le> 9007199254740992 \<Longrightarrow>
      \<bar>j\<bar> \<le> 36028797018963968" by arith
  from this [OF j1(2)] this [OF j2(2)] b have "\<bar>j1\<bar> \<le> 2 ^ 55" "\<bar>j2\<bar> \<le> 2 ^ 55" by simp_all
  then have "\<bar>j1 * j2\<bar> \<le> 2 ^ 55 * 2 ^ 55" by (rule abs_mult_le)
  then have j12: "\<bar>j1 * j2\<bar> \<le> 2 ^ 110" by simp
  then have "\<bar>j1 * j2\<bar> < 2 ^ 1023" by simp
  from toDouble_finite [OF this] obtain j3 where
    j3: "toDouble (j1 * j2) = Fin j3" "\<bar>j3\<bar> \<le> 2 * \<bar>j1 * j2\<bar>" by blast
  from j3(2) j12 have "\<bar>j3\<bar> < 2 ^ 1022" by simp
  from modInv_total [OF this, of ev] obtain d where d: "modInv (Fin ev) (Fin j3) = Inr d"
    by blast
  have phi: "num_mul (num_sub (Fin p) (Fin 1)) (num_sub (Fin q) (Fin 1)) = Fin j3"
    by (simp add: num_sub_def j1(1) j2(1) j3(1))
  have mul: "num_mul (Fin p) (Fin q) = Fin (p * q)" using pq by (simp add: toDouble_exact)
  have "truthy (Some (num_mul (toNumber (Some (Fin p))) (toNumber (Some (Fin q)))))"
    using p0 q0 by (simp add: mul del: num_mul.simps)
  from compute_out_both [OF _ _ this, of n e] p0 q0
  have "compute_out (Some (Fin p)) (Some (Fin q)) n e =
      Some (Inr \<lparr>out_N = Fin (p * q), out_phi = Fin j3, out_D = d,
                 out_P = Fin p, out_Q = Fin q\<rparr>)"
    by (simp add: phi mul ev d del: num_mul.simps)
  with d ev phi
  show "\<exists>d. modInv (toNumber e)
               (num_mul (num_sub (Fin p) (Fin 1)) (num_sub (Fin q) (Fin 1))) = Inr d
            \<and> compute_out (Some (Fin p)) (Some (Fin q)) n e =
                Some (Inr \<lparr>out_N = Fin (p * q),
                           out_phi = num_mul (num_sub (Fin p) (Fin 1)) (num_sub (Fin q) (Fin 1)),
                           out_D = d, out_P = Fin p, out_Q = Fin q\<rparr>)"
    by simp
next
  show "compute (RSALevel L1) =
       Some ((RSALevel L1)\<lparr>out := Some (Inr \<lparr>out_N = Fin 391, out_phi = Fin 352,
                                               out_D = Some (Fin 235),
                                               out_P = Fin 17, out_Q = Fin 23\<rparr>)\<rparr>)"
    by (simp add: compute_def RSALevel_def L1_def compute_out_L1)
qed

text \<open>The theorem at \<open>p = 19\<close>, \<open>q = 23\<close> with the supplied \<open>n = 100\<close>, which is overridden.\<close>

theorem compute_overrides_supplied_n_witness:
  "(19::int) \<noteq> 0 \<and> (23::int) \<noteq> 0 \<and> \<bar>(19::int) * 23\<bar> \<le> 2 ^ 53 \<and> finite_field (Some (Fin 5))
   \<and> (\<exists>phi d. compute_out (Some (Fin 19)) (Some (Fin 23)) (Some (Fin 100)) (Some (Fin 5)) =
        Some (Inr \<lparr>out_N = Fin 437, out_phi = phi, out_D = d,
                   out_P = Fin 19, out_Q = Fin 23\<rparr>))"
proof -
  have f: "finite_field (Some (Fin 5))" by (simp add: finite_field_def)
  with compute_overrides_supplied_n [of 19 23 "Some (Fin 5)" "Some (Fin 100)"]
  have "\<exists>phi d. compute_out (Some (Fin 19)) (Some (Fin 23)) (Some (Fin 100)) (Some (Fin 5)) =
        Some (Inr \<lparr>out_N = Fin 437, out_phi = phi, out_D = d,
                   out_P = Fin 19, out_Q = Fin 23\<rparr>)"
    by (simp del: num_mul.simps) blast
  with f show ?thesis by simp
qed

text \<open>
  Claim C4 as stated, for every supplied \<open>p\<close> and \<open>q\<close>, fails in three ways. The test
  \<^verbatim>\<open>if(P&&Q)\<close> takes a supplied \<open>0\<close> for an absent value: with \<open>p = 0\<close>, \<open>q = 5\<close> and
  \<open>n = 15\<close> the supplied \<open>n\<close> is kept and factored, and the reported \<open>n\<close> is \<open>15\<close>, not
  \<open>p * q = 0\<close>. A product beyond \<open>2^53\<close> is rounded: with \<open>p = q = 94906267\<close> the reported
  \<open>n\<close> is one less than \<open>p * q\<close>. And with an \<open>e\<close> that is no number, \<^verbatim>\<open>modInv\<close> exhausts the
  stack and no \<open>n\<close> is reported at all.
\<close>

theorem compute_zero_p_counterexample:
  "compute_out (Some (Fin 0)) (Some (Fin 5)) (Some (Fin 15)) (Some (Fin 3)) =
     Some (Inr \<lparr>out_N = Fin 15, out_phi = Fin 8, out_D = Some (Fin 3),
                out_P = Fin 3, out_Q = Fin 5\<rparr>)
   \<and> (15::int) \<noteq> 0 * 5
   \<and> compute_out (Some (Fin 94906267)) (Some (Fin 94906267)) None (Some (Fin 5)) =
       Some (Inr \<lparr>out_N = Fin 9007199515875288, out_phi = Fin 9007199326062756,
                  out_D = None, out_P = Fin 94906267, out_Q = Fin 94906267\<rparr>)
   \<and> (9007199515875288::int) \<noteq> 94906267 * 94906267
   \<and> compute_out (Some (Fin 17)) (Some (Fin 23)) None (Some NaN) = Some (Inl StackExhausted)"
  by (simp add: compute_out_zero_p compute_out_rounded_product compute_out_NaN_e)

section \<open>The error path of \<^verbatim>\<open>compute\<close>\<close>

text \<open>
  Claim C7, as the code has it. Let each of \<open>p\<close> and \<open>q\<close> be empty or an integer of
  magnitude below \<open>2^26\<close>, \<open>n\<close> empty or an integer of magnitude at most \<open>2^52\<close>, and \<open>e\<close>
  empty or a finite integer. Then \<^verbatim>\<open>compute\<close> returns, stores an output and leaves every
  input field and the hint as they were. Its output is an error in exactly one situation,
  and the error is then the missing-key-material one: \<open>p\<close> and \<open>q\<close> are not both
  present, and \<open>n\<close> is absent or has no divisor that trial division finds, so that \<open>p\<close>,
  \<open>q\<close> or \<open>n\<close> stays unresolved. The exponent \<open>e\<close> plays no part in that. Every other
  output reports \<open>n = p * q\<close> and \<open>\<phi>(n) = (p - 1) * (q - 1)\<close>, and when \<open>gcd e \<phi>(n) \<noteq> 1\<close> it
  reports the inverse \<open>d\<close> as \<^verbatim>\<open>null\<close>.
\<close>

theorem compute_only_error_is_missing_key:
  assumes "int_field (2 ^ 26 - 1) (fld_p st)" and "int_field (2 ^ 26 - 1) (fld_q st)"
    and "int_field (2 ^ 52) (fld_n st)" and "finite_field (fld_e st)"
  shows "\<exists>res. compute st = Some (st\<lparr>out := Some res\<rparr>)
     \<and> (\<forall>err. res = Inl err \<longleftrightarrow>
            err = MissingKeyMaterial
            \<and> \<not> (truthy (fld_p st) \<and> truthy (fld_q st))
            \<and> (\<not> truthy (fld_n st) \<or> trialFactor_num (toNumber (fld_n st)) = Some None))
     \<and> (\<forall>r. res = Inr r \<longrightarrow>
            (\<exists>P Q ev. out_P r = Fin P \<and> out_Q r = Fin Q \<and> out_N r = Fin (P * Q)
                \<and> out_phi r = Fin ((P - 1) * (Q - 1))
                \<and> toNumber (fld_e st) = Fin ev
                \<and> (gcd ev ((P - 1) * (Q - 1)) \<noteq> 1 \<longrightarrow> out_D r = None)))"
proof -
  let ?both = "truthy (fld_p st) \<and> truthy (fld_q st)"
  let ?nofac = "\<not> truthy (fld_n st) \<or> trialFactor_num (toNumber (fld_n st)) = Some None"
  let ?c = "compute_out (fld_p st) (fld_q st) (fld_n st) (fld_e st)"
  from compute_out_exact [OF assms]
  consider (missing) "\<not> ?both" "?nofac" "?c = Some (Inl MissingKeyMaterial)"
    | (resolved) P Q ev d where "?both \<or> \<not> ?nofac" "toNumber (fld_e st) = Fin ev"
        "\<bar>(P - 1) * (Q - 1)\<bar> \<le> 2 ^ 52"
        "modInv (Fin ev) (Fin ((P - 1) * (Q - 1))) = Inr d"
        "?c = Some (Inr \<lparr>out_N = Fin (P * Q), out_phi = Fin ((P - 1) * (Q - 1)),
                         out_D = d, out_P = Fin P, out_Q = Fin Q\<rparr>)"
    by blast
  then show ?thesis
  proof cases
    case missing
    from missing(3) have "compute st = Some (st\<lparr>out := Some (Inl MissingKeyMaterial)\<rparr>)"
      by (simp add: compute_def)
    with missing(1,2) show ?thesis by (intro exI [of _ "Inl MissingKeyMaterial"]) auto
  next
    case resolved
    let ?r = "\<lparr>out_N = Fin (P * Q), out_phi = Fin ((P - 1) * (Q - 1)),
               out_D = d, out_P = Fin P, out_Q = Fin Q\<rparr>"
    from resolved(5) have c: "compute st = Some (st\<lparr>out := Some (Inr ?r)\<rparr>)"
      by (simp add: compute_def)
    have g: "gcd ev ((P - 1) * (Q - 1)) \<noteq> 1 \<longrightarrow> d = None"
      using modInv_not_coprime [OF resolved(3), of ev] resolved(4) by auto
    have "\<forall>r. Inr ?r = (Inr r :: error + rsa_out) \<longrightarrow>
            (\<exists>P Q ev. out_P r = Fin P \<and> out_Q r = Fin Q \<and> out_N r = Fin (P * Q)
                \<and> out_phi r = Fin ((P - 1) * (Q - 1))
                \<and> toNumber (fld_e st) = Fin ev
                \<and> (gcd ev ((P - 1) * (Q - 1)) \<noteq> 1 \<longrightarrow> out_D r = None))"
    proof (intro allI impI)
      fix r assume "Inr ?r = (Inr r :: error + rsa_out)"
      then have r: "r = ?r" by simp
      show "\<exists>P Q ev. out_P r = Fin P \<and> out_Q r = Fin Q \<and> out_N r = Fin (P * Q)
                \<and> out_phi r = Fin ((P - 1) * (Q - 1))
                \<and> toNumber (fld_e st) = Fin ev
                \<and> (gcd ev ((P - 1) * (Q - 1)) \<noteq> 1 \<longrightarrow> out_D r = None)"
        using g resolved(2) unfolding r
        by (intro exI [of _ P] exI [of _ Q] exI [of _ ev]) simp
    qed
    moreover have "\<forall>err. (Inr ?r :: error + rsa_out) = Inl err \<longleftrightarrow>
            err = MissingKeyMaterial \<and> \<not> ?both \<and> ?nofac"
      using resolved(1) by auto
    ultimately show ?thesis using c by (intro exI [of _ "Inr ?r"]) blast
  qed
qed

text \<open>
  The theorem on the preset L3, where \<open>gcd 7 616 \<noteq> 1\<close>, and on the same preset with the
  prime \<open>n = 7\<close>, where the key stays unresolved.
\<close>

theorem compute_only_error_is_missing_key_witness:
  "compute (RSALevel L3) =
     Some ((RSALevel L3)\<lparr>out := Some (Inr \<lparr>out_N = Fin 667, out_phi = Fin 616, out_D = None,
                                             out_P = Fin 23, out_Q = Fin 29\<rparr>)\<rparr>)
   \<and> gcd (7::int) ((23 - 1) * (29 - 1)) \<noteq> 1
   \<and> compute (RSALevel (L3\<lparr>given_n := Some (Fin 7)\<rparr>)) =
       Some ((RSALevel (L3\<lparr>given_n := Some (Fin 7)\<rparr>))\<lparr>out := Some (Inl MissingKeyMaterial)\<rparr>)"
proof -
  let ?st = "RSALevel L3"
  let ?st7 = "RSALevel (L3\<lparr>given_n := Some (Fin 7)\<rparr>)"
  have g: "gcd (7::int) ((23 - 1) * (29 - 1)) \<noteq> 1" by code_simp
  have dom: "int_field (2 ^ 26 - 1) None" "int_field (2 ^ 52) (Some (Fin 667))"
    "int_field (2 ^ 52) (Some (Fin 7))" "finite_field (Some (Fin 7))"
    by (simp_all add: int_field_def finite_field_def)
  have f: "fld_p ?st = None" "fld_q ?st = None" "fld_n ?st = Some (Fin 667)"
    "fld_e ?st = Some (Fin 7)" "fld_p ?st7 = None" "fld_q ?st7 = None"
    "fld_n ?st7 = Some (Fin 7)" "fld_e ?st7 = Some (Fin 7)"
    by (simp_all add: RSALevel_def L3_def)
  from compute_only_error_is_missing_key [of ?st] dom
  obtain res where res: "compute ?st = Some (?st\<lparr>out := Some res\<rparr>)"
    and inr: "\<forall>r. res = Inr r \<longrightarrow>
            (\<exists>P Q ev. out_P r = Fin P \<and> out_Q r = Fin Q \<and> out_N r = Fin (P * Q)
                \<and> out_phi r = Fin ((P - 1) * (Q - 1))
                \<and> toNumber (fld_e ?st) = Fin ev
                \<and> (gcd ev ((P - 1) * (Q - 1)) \<noteq> 1 \<longrightarrow> out_D r = None))"
    unfolding f by blast
  have o: "compute ?st = Some (?st\<lparr>out := Some (Inr \<lparr>out_N = Fin 667, out_phi = Fin 616,
      out_D = None, out_P = Fin 23, out_Q = Fin 29\<rparr>)\<rparr>)"
    by (simp add: compute_def f compute_out_L3)
  from compute_only_error_is_missing_key [of ?st7] dom
  obtain res7 where res7: "compute ?st7 = Some (?st7\<lparr>out := Some res7\<rparr>)"
    and inl: "\<forall>err. res7 = Inl err \<longleftrightarrow>
            err = MissingKeyMaterial
            \<and> \<not> (truthy (fld_p ?st7) \<and> truthy (fld_q ?st7))
            \<and> (\<not> truthy (fld_n ?st7) \<or> trialFactor_num (toNumber (fld_n ?st7)) = Some None)"
    unfolding f by blast
  from inl have "res7 = Inl MissingKeyMaterial" by (simp add: f trialFactor_7)
  with res7 o g show ?thesis by simp
qed

text \<open>
  Claim C7 as stated, for every input, fails in three ways. With a resolved key and an \<open>e\<close>
  that is no number, \<^verbatim>\<open>egcd\<close> recurses without end and the \<^verbatim>\<open>catch\<close> stores the engine's
  stack error: a second error outcome. With \<open>n\<close> beyond the range of the doubles and no
  \<open>p\<close> and \<open>q\<close>, the loop of \<^verbatim>\<open>trialFactor\<close> never ends and \<^verbatim>\<open>compute\<close> never returns. And
  with \<open>p = 2^53\<close>, \<open>q = 2\<close>, \<open>e = 12722\<close>, where \<open>gcd e \<phi>(n) = 6361\<close>, rounding lets \<^verbatim>\<open>modInv\<close>
  return a number, so that \<open>d\<close> is not reported as \<^verbatim>\<open>null\<close>.
\<close>

theorem compute_error_counterexample:
  "compute_out (Some (Fin 17)) (Some (Fin 23)) None (Some NaN) = Some (Inl StackExhausted)
   \<and> compute (RSALevel (L3\<lparr>given_n := Some PInf\<rparr>)) = None
   \<and> compute_out (Some (Fin (2 ^ 53))) (Some (Fin 2)) None (Some (Fin 12722)) =
       Some (Inr \<lparr>out_N = Fin (2 ^ 54), out_phi = Fin (2 ^ 53 - 1),
                  out_D = Some (Fin 1079079605709085),
                  out_P = Fin (2 ^ 53), out_Q = Fin 2\<rparr>)
   \<and> gcd (12722::int) (2 ^ 53 - 1) \<noteq> 1"
  by (simp add: compute_out_NaN_e compute_out_rounded_inverse gcd_12722
      compute_def RSALevel_def L3_def compute_out_infinite_n)

text \<open>
  Claim C10, as the code has it. Let each of \<open>p\<close> and \<open>q\<close> be empty or an integer of
  magnitude below \<open>2^26\<close> and \<open>n\<close> empty or an integer of magnitude at most \<open>2^52\<close>. When
  \<open>p\<close> and \<open>q\<close> are resolved (both supplied, or found by trial division of the supplied
  \<open>n\<close>) and \<open>e\<close> is missing, \<^verbatim>\<open>compute\<close> does not end in the missing-key-material error.
  It takes the absent \<open>e\<close> for \<open>0\<close>, so its output is the output for \<open>e = 0\<close>;
  \<open>gcd 0 \<phi>(n) = |\<phi>(n)|\<close>, and whenever \<open>\<phi>(n) \<noteq> 1\<close> the inverse \<open>d\<close> is reported as \<^verbatim>\<open>null\<close>,
  with \<open>n\<close> and \<open>\<phi>(n)\<close> shown, and the output is then the same as for every integer \<open>e\<close>
  that has no inverse, that is, with \<open>gcd e \<phi>(n) \<noteq> 1\<close>. The case \<open>\<phi>(n) = 1\<close> is the key
  \<open>p = q = 2\<close> and no other.
\<close>

theorem compute_missing_e:
  assumes "int_field (2 ^ 26 - 1) p" and "int_field (2 ^ 26 - 1) q" and "int_field (2 ^ 52) n"
    and "(truthy p \<and> truthy q) \<or> (truthy n \<and> trialFactor_num (toNumber n) \<noteq> Some None)"
  shows "\<exists>r P Q. compute_out p q n None = Some (Inr r)
           \<and> out_P r = Fin P \<and> out_Q r = Fin Q \<and> out_N r = Fin (P * Q)
           \<and> out_phi r = Fin ((P - 1) * (Q - 1))
           \<and> compute_out p q n (Some (Fin 0)) = Some (Inr r)
           \<and> gcd 0 ((P - 1) * (Q - 1)) = \<bar>(P - 1) * (Q - 1)\<bar>
           \<and> ((P - 1) * (Q - 1) \<noteq> 1 \<longrightarrow>
                 out_D r = None
                 \<and> (\<forall>e'. gcd e' ((P - 1) * (Q - 1)) \<noteq> 1 \<longrightarrow>
                        compute_out p q n (Some (Fin e')) = Some (Inr r)))
           \<and> ((P - 1) * (Q - 1) = 1 \<longleftrightarrow> P = 2 \<and> Q = 2)"
proof -
  have fin: "finite_field None" by (simp add: finite_field_def)
  from compute_out_exact [OF assms(1,2,3) fin] assms(4)
  obtain P Q d where P0: "P \<noteq> 0" "Q \<noteq> 0" and phi: "\<bar>(P - 1) * (Q - 1)\<bar> \<le> 2 ^ 52"
    and d: "modInv (Fin 0) (Fin ((P - 1) * (Q - 1))) = Inr d"
    and c: "compute_out p q n None =
        Some (Inr \<lparr>out_N = Fin (P * Q), out_phi = Fin ((P - 1) * (Q - 1)),
                   out_D = d, out_P = Fin P, out_Q = Fin Q\<rparr>)"
    by auto
  let ?phi = "(P - 1) * (Q - 1)"
  let ?r = "\<lparr>out_N = Fin (P * Q), out_phi = Fin ?phi, out_D = d, out_P = Fin P, out_Q = Fin Q\<rparr>"
  have "(2::int) ^ 52 \<le> 2 ^ 53" by simp
  with phi have "\<bar>?phi\<bar> \<le> 2 ^ 53" by linarith
  from modInv_zero [OF this] d have dv: "d = (if ?phi = 1 then Some (Fin 0) else None)" by simp
  note ch = compute_out_change_e [OF c]
  have zero: "compute_out p q n (Some (Fin 0)) = Some (Inr ?r)"
  proof -
    have "modInv (toNumber (Some (Fin 0))) (out_phi ?r) = Inr d" using d by simp
    with ch have "compute_out p q n (Some (Fin 0)) = Some (Inr (?r\<lparr>out_D := d\<rparr>))" by blast
    then show ?thesis by simp
  qed
  have same: "compute_out p q n (Some (Fin e')) = Some (Inr ?r)"
    if "?phi \<noteq> 1" "gcd e' ?phi \<noteq> 1" for e'
  proof -
    from modInv_not_coprime [OF phi that(2)]
    have "modInv (toNumber (Some (Fin e'))) (out_phi ?r) = Inr None" by simp
    with ch have "compute_out p q n (Some (Fin e')) = Some (Inr (?r\<lparr>out_D := None\<rparr>))" by blast
    with dv that(1) show ?thesis by simp
  qed
  have one: "?phi = 1 \<longleftrightarrow> P = 2 \<and> Q = 2"
  proof
    assume "?phi = 1"
    then have "(P - 1 = 1 \<and> Q - 1 = 1) \<or> (P - 1 = - 1 \<and> Q - 1 = - 1)"
      by (simp add: zmult_eq_1_iff)
    with P0 show "P = 2 \<and> Q = 2" by auto
  next
    assume "P = 2 \<and> Q = 2"
    then show "?phi = 1" by simp
  qed
  have g: "gcd 0 ?phi = \<bar>?phi\<bar>" by simp
  have dn: "?phi \<noteq> 1 \<longrightarrow> out_D ?r = None" using dv by simp
  have "compute_out p q n None = Some (Inr ?r)
           \<and> out_P ?r = Fin P \<and> out_Q ?r = Fin Q \<and> out_N ?r = Fin (P * Q)
           \<and> out_phi ?r = Fin ((P - 1) * (Q - 1))
           \<and> compute_out p q n (Some (Fin 0)) = Some (Inr ?r)
           \<and> gcd 0 ((P - 1) * (Q - 1)) = \<bar>(P - 1) * (Q - 1)\<bar>
           \<and> ((P - 1) * (Q - 1) \<noteq> 1 \<longrightarrow>
                 out_D ?r = None
                 \<and> (\<forall>e'. gcd e' ((P - 1) * (Q - 1)) \<noteq> 1 \<longrightarrow>
                        compute_out p q n (Some (Fin e')) = Some (Inr ?r)))
           \<and> ((P - 1) * (Q - 1) = 1 \<longleftrightarrow> P = 2 \<and> Q = 2)"
    using c zero g dn same one by (intro conjI impI allI) simp_all
  then show ?thesis by blast
qed

text \<open>
  The theorem on the preset L1 with its \<open>e\<close> removed, compared with \<open>e = 8\<close>, which has
  no inverse modulo \<open>352\<close>.
\<close>

theorem compute_missing_e_witness:
  "int_field (2 ^ 26 - 1) (Some (Fin 17)) \<and> int_field (2 ^ 26 - 1) (Some (Fin 23))
   \<and> int_field (2 ^ 52) None \<and> truthy (Some (Fin 17)) \<and> truthy (Some (Fin 23))
   \<and> compute_out (Some (Fin 17)) (Some (Fin 23)) None None =
       Some (Inr \<lparr>out_N = Fin 391, out_phi = Fin 352, out_D = None,
                  out_P = Fin 17, out_Q = Fin 23\<rparr>)
   \<and> gcd (8::int) 352 \<noteq> 1
   \<and> compute_out (Some (Fin 17)) (Some (Fin 23)) None (Some (Fin 8)) =
       compute_out (Some (Fin 17)) (Some (Fin 23)) None None"
proof -
  have dom: "int_field (2 ^ 26 - 1) (Some (Fin 17))" "int_field (2 ^ 26 - 1) (Some (Fin 23))"
    "int_field (2 ^ 52) None" "truthy (Some (Fin 17))" "truthy (Some (Fin 23))"
    by (simp_all add: int_field_def)
  have g: "gcd (8::int) 352 \<noteq> 1" by code_simp
  from compute_missing_e [of "Some (Fin 17)" "Some (Fin 23)" None] dom
  obtain r P Q where r: "compute_out (Some (Fin 17)) (Some (Fin 23)) None None = Some (Inr r)"
    and PQ: "out_P r = Fin P" "out_Q r = Fin Q" "out_N r = Fin (P * Q)"
      "out_phi r = Fin ((P - 1) * (Q - 1))"
    and imp: "(P - 1) * (Q - 1) \<noteq> 1 \<longrightarrow>
                 out_D r = None
                 \<and> (\<forall>e'. gcd e' ((P - 1) * (Q - 1)) \<noteq> 1 \<longrightarrow>
                        compute_out (Some (Fin 17)) (Some (Fin 23)) None (Some (Fin e')) =
                          Some (Inr r))"
    by blast
  have "truthy (Some (num_mul (toNumber (Some (Fin 17))) (toNumber (Some (Fin 23)))))"
    by (simp add: toDouble_exact)
  from compute_out_both [OF dom(4,5) this, of None None] r
  have "out_P r = Fin 17" "out_Q r = Fin 23"
    by (auto split: sum.splits)
  with PQ have P: "P = 17" "Q = 23" by simp_all
  with imp g have d: "out_D r = None"
    and e8: "compute_out (Some (Fin 17)) (Some (Fin 23)) None (Some (Fin 8)) = Some (Inr r)"
    by simp_all
  from PQ P d have "r = \<lparr>out_N = Fin 391, out_phi = Fin 352, out_D = None,
                  out_P = Fin 17, out_Q = Fin 23\<rparr>" by (cases r) simp
  with r e8 dom g show ?thesis by simp
qed

text \<open>
  Claim C10 as stated, for every resolved \<open>p\<close> and \<open>q\<close>, fails in three ways. At
  \<open>p = q = 2\<close>, \<open>\<phi>(n) = 1\<close>, \<open>gcd 0 1 = 1\<close>, and the missing \<open>e\<close> gets the inverse \<open>d = 0\<close>
  instead of \<^verbatim>\<open>null\<close>. With \<open>p\<close> beyond the range of the doubles, \<open>\<phi>(n)\<close> is infinite and
  \<^verbatim>\<open>compute\<close> ends in the engine's stack error. And with \<open>p = 2^53\<close>, \<open>q = 2\<close> the missing
  \<open>e\<close> is told apart from \<open>e = 12722\<close>, which has no inverse modulo \<open>\<phi>(n)\<close> and still gets
  a number for \<open>d\<close>.
\<close>

theorem compute_missing_e_counterexample:
  "compute_out (Some (Fin 2)) (Some (Fin 2)) None None =
     Some (Inr \<lparr>out_N = Fin 4, out_phi = Fin 1, out_D = Some (Fin 0),
                out_P = Fin 2, out_Q = Fin 2\<rparr>)
   \<and> compute_out (Some PInf) (Some (Fin 2)) None None = Some (Inl StackExhausted)
   \<and> compute_out (Some (Fin (2 ^ 53))) (Some (Fin 2)) None None =
       Some (Inr \<lparr>out_N = Fin (2 ^ 54), out_phi = Fin (2 ^ 53 - 1), out_D = None,
                  out_P = Fin (2 ^ 53), out_Q = Fin 2\<rparr>)
   \<and> gcd (12722::int) (2 ^ 53 - 1) \<noteq> 1
   \<and> compute_out (Some (Fin (2 ^ 53))) (Some (Fin 2)) None (Some (Fin 12722)) \<noteq>
       compute_out (Some (Fin (2 ^ 53))) (Some (Fin 2)) None None"
  by (simp add: compute_out_two_two compute_out_infinite_p compute_out_rounded_missing_e
      compute_out_rounded_inverse gcd_12722)

section \<open>The outcome of an attack\<close>

text \<open>
  Claim C5, as the code has it. For every account and every method whose flag names
  (\<^verbatim>\<open>exploits\<close> and \<^verbatim>\<open>blockedBy\<close>) are not among the names that every object inherits,
  \<^verbatim>\<open>simulateAttack\<close> is a function of its two arguments that decides in three steps:
  failure with the no-matching-vulnerability reason when no flag that the method exploits
  is true among the account's vulnerability flags; otherwise failure with the
  blocked-by-a-control reason when some flag of the method's \<^verbatim>\<open>blockedBy\<close> is true among
  the account's controls; otherwise success. On the demo data: the leak method succeeds
  against account A, the guess method fails against account C for want of a matching
  vulnerability, and phishing against account B is blocked by a control.
\<close>

theorem simulateAttack_three_way:
  "(set (exploits method) \<inter> set Object_prototype_names = {}
    \<and> set (blockedBy method) \<inter> set Object_prototype_names = {} \<longrightarrow>
    simulateAttack acct method =
     (if set (exploits method) \<inter> {v. vulns acct v = Some True} = {}
      then \<lparr>success = False, reason = NoMatchingVulnerability\<rparr>
      else if \<exists>b \<in> set (blockedBy method). controls acct b = Some True
           then \<lparr>success = False, reason = BlockedByControl\<rparr>
           else \<lparr>success = True, reason = LoginEstablished\<rparr>))
   \<and> simulateAttack userA leak = \<lparr>success = True, reason = LoginEstablished\<rparr>
   \<and> simulateAttack userC guess = \<lparr>success = False, reason = NoMatchingVulnerability\<rparr>
   \<and> simulateAttack userB phish = \<lparr>success = False, reason = BlockedByControl\<rparr>"
proof (intro conjI impI)
  assume a: "set (exploits method) \<inter> set Object_prototype_names = {}
    \<and> set (blockedBy method) \<inter> set Object_prototype_names = {}"
  then have ex: "\<And>v. v \<in> set (exploits method) \<Longrightarrow> v \<notin> set Object_prototype_names"
    and bl: "\<And>b. b \<in> set (blockedBy method) \<Longrightarrow> b \<notin> set Object_prototype_names"
    by blast+
  have "list_ex (\<lambda>v. flag_set (vulns acct) v) (exploits method) \<longleftrightarrow>
          set (exploits method) \<inter> {v. vulns acct v = Some True} \<noteq> {}"
    using ex by (auto simp: list_ex_iff flag_set_own)
  moreover have "list_ex (\<lambda>b. flag_set (controls acct) b) (blockedBy method) \<longleftrightarrow>
          (\<exists>b \<in> set (blockedBy method). controls acct b = Some True)"
    using bl by (auto simp: list_ex_iff flag_set_own)
  ultimately show "simulateAttack acct method =
     (if set (exploits method) \<inter> {v. vulns acct v = Some True} = {}
      then \<lparr>success = False, reason = NoMatchingVulnerability\<rparr>
      else if \<exists>b \<in> set (blockedBy method). controls acct b = Some True
           then \<lparr>success = False, reason = BlockedByControl\<rparr>
           else \<lparr>success = True, reason = LoginEstablished\<rparr>)"
    by (simp add: simulateAttack_def Let_def)
next
  show "simulateAttack userA leak = \<lparr>success = True, reason = LoginEstablished\<rparr>"
    by (simp add: simulateAttack_def userA_def leak_def flag_set_def)
next
  show "simulateAttack userC guess = \<lparr>success = False, reason = NoMatchingVulnerability\<rparr>"
    by (simp add: simulateAttack_def userC_def guess_def flag_set_def)
next
  show "simulateAttack userB phish = \<lparr>success = False, reason = BlockedByControl\<rparr>"
    by (simp add: simulateAttack_def userB_def phish_def flag_set_def)
qed

text \<open>The theorem on account C and the social-engineering method: matched, then blocked.\<close>

theorem simulateAttack_three_way_witness:
  "set (exploits social) \<inter> set Object_prototype_names = {}
   \<and> set (blockedBy social) \<inter> set Object_prototype_names = {}
   \<and> set (exploits social) \<inter> {v. vulns userC v = Some True} \<noteq> {}
   \<and> (\<exists>b \<in> set (blockedBy social). controls userC b = Some True)
   \<and> simulateAttack userC social = \<lparr>success = False, reason = BlockedByControl\<rparr>"
  using simulateAttack_three_way [of social userC]
  by (simp add: userC_def social_def Object_prototype_names_def)

text \<open>
  Claim C5 as stated, for every method, fails on an inherited name. A method that exploits
  \<^verbatim>\<open>constructor\<close> succeeds against account C, which has no such vulnerability flag; a
  method blocked by \<^verbatim>\<open>toString\<close> is blocked for account A, which has no such control.
\<close>

theorem simulateAttack_inherited_counterexample:
  "vulns userC ''constructor'' = None
   \<and> simulateAttack userC \<lparr>method_key = ''guess'', exploits = [''constructor''], blockedBy = []\<rparr>
       = \<lparr>success = True, reason = LoginEstablished\<rparr>
   \<and> vulns userA ''weakPattern'' = Some True \<and> controls userA ''toString'' = None
   \<and> simulateAttack userA
         \<lparr>method_key = ''guess'', exploits = [''weakPattern''], blockedBy = [''toString'']\<rparr>
       = \<lparr>success = False, reason = BlockedByControl\<rparr>"
  by (simp add: simulateAttack_def userC_def userA_def flag_set_def Object_prototype_names_def)

section \<open>The route of a path\<close>

text \<open>
  Claim C6. For every path string and every configured base, \<^verbatim>\<open>parseWorkId\<close> computes
  what the specification describes: it strips the base prefix, takes the first non-empty
  segment and returns it when it is one of \<open>1\<close>, \<open>2\<close>, \<open>3\<close>, and returns \<open>all\<close> for every
  other segment. The result is always one of \<open>all\<close>, \<open>1\<close>, \<open>2\<close>, \<open>3\<close>: no input leads to an
  error. The empty path, the root path and the base path give \<open>all\<close>. The view rendered
  for the result is the show-all view for \<open>all\<close> and the work's own view otherwise.
\<close>

theorem parseWorkId_known_or_default:
  "parseWorkId b p = spec_parseWorkId b p
   \<and> parseWorkId b p \<in> {''all'', ''1'', ''2'', ''3''}
   \<and> parseWorkId b [] = ''all''
   \<and> parseWorkId b ''/'' = ''all''
   \<and> parseWorkId b (getNormalizedBasePath b) = ''all''
   \<and> App_view (parseWorkId b p) =
       (if parseWorkId b p = ''all'' then ShowAll else ShowWork (parseWorkId b p))"
proof (intro conjI)
  show "parseWorkId b p = spec_parseWorkId b p" by (rule parseWorkId_eq_spec)
  show "parseWorkId b p \<in> {''all'', ''1'', ''2'', ''3''}"
    using spec_parseWorkId_range [of b p] by (simp add: parseWorkId_eq_spec)
  show "parseWorkId b [] = ''all''" by (simp add: parseWorkId_def DEFAULT_WORK_ID_def)
  show "parseWorkId b ''/'' = ''all''" using parseWorkId_root [of b] by (simp add: DEFAULT_WORK_ID_def)
  show "parseWorkId b (getNormalizedBasePath b) = ''all''"
    using parseWorkId_base [of b] by (simp add: DEFAULT_WORK_ID_def)
  show "App_view (parseWorkId b p) =
       (if parseWorkId b p = ''all'' then ShowAll else ShowWork (parseWorkId b p))"
    using App_view_known [OF parseWorkId_range [of b p]] by (simp add: DEFAULT_WORK_ID_def)
qed

text \<open>The theorem under the base \<^verbatim>\<open>/app/\<close>, on a known and on an unknown segment.\<close>

theorem parseWorkId_known_or_default_witness:
  "parseWorkId (Some ''/app/'') ''/app/2/x'' = ''2''
   \<and> first_nonempty_segment (strip_base_prefix ''/app'' ''/app/2/x'') = ''2''
   \<and> parseWorkId (Some ''/app/'') ''/app/settings'' = ''all''
   \<and> App_view (parseWorkId (Some ''/app/'') ''/app/2/x'') = ShowWork ''2''"
proof -
  have seg: "first_nonempty_segment (strip_base_prefix ''/app'' ''/app/2/x'') = ''2''"
    by (simp add: first_nonempty_segment_def strip_base_prefix_def)
  have seg': "first_nonempty_segment (strip_base_prefix ''/app'' ''/app/settings'') = ''settings''"
    by (simp add: first_nonempty_segment_def strip_base_prefix_def)
  from parseWorkId_known_or_default [of "Some ''/app/''" "''/app/2/x''"] seg
  have 1: "parseWorkId (Some ''/app/'') ''/app/2/x'' = ''2''"
    by (simp add: spec_parseWorkId_def getNormalizedBasePath_app)
  from parseWorkId_known_or_default [of "Some ''/app/''" "''/app/settings''"] seg'
  have 2: "parseWorkId (Some ''/app/'') ''/app/settings'' = ''all''"
    by (simp add: spec_parseWorkId_def getNormalizedBasePath_app)
  from parseWorkId_known_or_default [of "Some ''/app/''" "''/app/2/x''"]
  have "App_view (parseWorkId (Some ''/app/'') ''/app/2/x'') =
       (if parseWorkId (Some ''/app/'') ''/app/2/x'' = ''all'' then ShowAll
        else ShowWork (parseWorkId (Some ''/app/'') ''/app/2/x''))" by blast
  then have 3: "App_view (parseWorkId (Some ''/app/'') ''/app/2/x'') = ShowWork ''2''"
    unfolding 1 by simp
  from 1 seg 2 3 show ?thesis by simp
qed

section \<open>The router's invariant\<close>

text \<open>
  Claim C9. The work identifier held by the router is always one of \<open>all\<close>, \<open>1\<close>, \<open>2\<close>,
  \<open>3\<close>: the initial state of \<^verbatim>\<open>App\<close> has such an identifier, a \<^verbatim>\<open>popstate\<close> event and a
  call of \<^verbatim>\<open>navigate\<close> (with any argument) lead from such a state to such a state, and so
  does every sequence of them from the initial state. The not-found card of \<^verbatim>\<open>App\<close> is
  therefore never rendered.
\<close>

theorem router_workId_invariant:
  "workId (App_route b w) \<in> {''all'', ''1'', ''2'', ''3''}
   \<and> (workId st \<in> {''all'', ''1'', ''2'', ''3''} \<longrightarrow>
        workId (handlePopstate b path st) \<in> {''all'', ''1'', ''2'', ''3''}
        \<and> workId (navigate b nextId st) \<in> {''all'', ''1'', ''2'', ''3''})
   \<and> workId (route_run b (App_route b w) evs) \<in> {''all'', ''1'', ''2'', ''3''}
   \<and> App_view (workId (route_run b (App_route b w) evs)) \<noteq> NotFound"
proof -
  have S: "set (DEFAULT_WORK_ID # WORK_KEYS) = {''all'', ''1'', ''2'', ''3''}"
    by (simp add: DEFAULT_WORK_ID_def WORK_KEYS_def)
  note run = route_run_valid [OF route_init_valid, of b b w evs]
  from App_view_known [OF run]
  have "App_view (workId (route_run b (App_route b w) evs)) \<noteq> NotFound"
    by (simp split: if_splits)
  with route_init_valid [of b w] handlePopstate_valid [of st b path]
    navigate_valid [of st b nextId] run
  show ?thesis unfolding S by blast
qed

text \<open>
  The theorem on a run that starts at \<^verbatim>\<open>/2\<close>, navigates to an unknown identifier, goes
  back in history to \<^verbatim>\<open>/3/x\<close> and navigates to work 1.
\<close>

theorem router_workId_invariant_witness:
  "workId (App_route None (Some ''/2'')) = ''2''
   \<and> workId (navigate None ''zzz'' (App_route None (Some ''/2''))) = ''all''
   \<and> workId (handlePopstate None ''/3/x'' (App_route None (Some ''/2''))) = ''3''
   \<and> App_view (workId (route_run None (App_route None (Some ''/2''))
          [Navigate ''zzz'', Popstate ''/3/x'', Navigate ''1''])) = ShowWork ''1''"
proof -
  let ?s0 = "App_route None (Some ''/2'')"
  have nb: "getNormalizedBasePath None = []"
    by (simp add: getNormalizedBasePath_def endsWith_def suffix_to_prefix)
  have p2: "parseWorkId None ''/2'' = ''2''"
    by (simp add: parseWorkId_def stripBaseFromPath_def nb stripLeadingSlashes_def
        WORK_KEYS_def)
  have p3: "parseWorkId None ''/3/x'' = ''3''"
    by (simp add: parseWorkId_def stripBaseFromPath_def nb stripLeadingSlashes_def
        WORK_KEYS_def)
  have s0: "?s0 = \<lparr>workId = ''2'', location = Some ''/2'', pushed = []\<rparr>"
    by (simp add: App_route_def useWorkRoute_def p2)
  have 1: "workId ?s0 = ''2''" by (simp add: s0)
  have 2: "workId (navigate None ''zzz'' ?s0) = ''all''"
    by (simp add: s0 navigate_def Let_def WORK_KEYS_def DEFAULT_WORK_ID_def)
  have 3: "workId (handlePopstate None ''/3/x'' ?s0) = ''3''"
    by (simp add: s0 handlePopstate_def p3)
  have run: "workId (route_run None ?s0 [Navigate ''zzz'', Popstate ''/3/x'', Navigate ''1'']) = ''1''"
    by (simp add: s0 route_run_def navigate_def handlePopstate_def Let_def WORK_KEYS_def)
  have v: "App_view ''1'' \<in> {ShowWork ''1'', NotFound}"
    by (simp add: App_view_def WORK_SECTIONS_def DEFAULT_WORK_ID_def)
  from router_workId_invariant [of None "Some ''/2''" ?s0 "''/3/x''" "''zzz''"
      "[Navigate ''zzz'', Popstate ''/3/x'', Navigate ''1'']"] run v
  have 4: "App_view (workId (route_run None ?s0
          [Navigate ''zzz'', Popstate ''/3/x'', Navigate ''1''])) = ShowWork ''1''"
    by auto
  from 1 2 3 4 show ?thesis by simp
qed

end
